theory Spec2Isabelle
  imports Main "HOL-Library.Word" "HOL-Library.List_Lexorder" "HOL-Library.Char_ord"
begin

section \<open>API gateway: FilePut (src/pfs/route/route.go, package server)\<close>

text \<open>
  The protobuf messages the gateway handles. A message-typed field is a Go pointer and
  may be nil, so it is an \<open>option\<close>; reading through a nil pointer panics, which the
  model returns as the error \<open>NilDereference\<close>.
\<close>

datatype FileType = FILE_TYPE_NONE | FILE_TYPE_REGULAR | FILE_TYPE_DIR

record Repo =
  Name :: string

record Commit =
  Repo :: "Repo option"
  Id :: string

record File =
  FCommit :: "Commit option"
  Path :: string

record FilePutRequest =
  File :: "File option"
  FileType :: FileType
  OffsetBytes :: int
  Value :: string

text \<open>
  Errors are values. \<open>Errorf\<close> carries the message of a \<open>fmt.Errorf\<close> call of this
  repository; \<open>External\<close> is an error handed back by a collaborator (router, sharder,
  internal client, file system).
\<close>

datatype error = Errorf string | External string | NilDereference

datatype Empty = EmptyInstance

type_synonym clientConn = nat

text \<open>
  The collaborators of \<open>apiServer\<close>: the router, the sharder and the internal API client
  reached through a connection. Every call made is appended to a trace, so that
  "no routing or append happened" is a statement about the trace.
\<close>

record apiEnv =
  GetAllClientConns :: "error + clientConn list"
  GetShard :: "File \<Rightarrow> error + nat"
  GetMasterClientConn :: "nat \<Rightarrow> error + clientConn"
  InternalFilePut :: "clientConn \<Rightarrow> FilePutRequest \<Rightarrow> Empty option \<times> error option"

datatype event =
    EvGetAllClientConns
  | EvGetShard File
  | EvGetMasterClientConn nat
  | EvInternalFilePut clientConn FilePutRequest

text \<open>\<open>strings.HasPrefix\<close>.\<close>

definition HasPrefix :: "string \<Rightarrow> string \<Rightarrow> bool" where
  "HasPrefix s p = (take (length p) s = p)"

text \<open>The loop of \<open>FilePut\<close> over all connections for a directory: the first error aborts.\<close>

fun filePutAll ::
  "apiEnv \<Rightarrow> FilePutRequest \<Rightarrow> clientConn list \<Rightarrow> event list
    \<Rightarrow> (Empty option \<times> error option) \<times> event list" where
  "filePutAll env request [] tr = ((Some EmptyInstance, None), tr)"
| "filePutAll env request (c # cs) tr =
     (case snd (InternalFilePut env c request) of
        Some err \<Rightarrow> ((None, Some err), tr @ [EvInternalFilePut c request])
      | None \<Rightarrow> filePutAll env request cs (tr @ [EvInternalFilePut c request]))"

text \<open>\<open>getClientConnForFile\<close>: shard of the file, then the master connection for it.\<close>

definition getClientConnForFile ::
  "apiEnv \<Rightarrow> File \<Rightarrow> (error + clientConn) \<times> event list" where
  "getClientConnForFile env f =
     (case GetShard env f of
        Inl err \<Rightarrow> (Inl err, [EvGetShard f])
      | Inr shard \<Rightarrow> (GetMasterClientConn env shard, [EvGetShard f, EvGetMasterClientConn shard]))"

definition FilePut ::
  "apiEnv \<Rightarrow> FilePutRequest \<Rightarrow> (Empty option \<times> error option) \<times> event list" where
  "FilePut env request =
     (case File request of
        None \<Rightarrow> ((None, Some NilDereference), [])
      | Some f \<Rightarrow>
          if HasPrefix (Path f) ''/'' then
            ((None, Some (Errorf (''pachyderm: leading slash in path: '' @ Path f))), [])
          else if FileType request = FILE_TYPE_DIR then
            (if length (Value request) > 0 then
               ((Some EmptyInstance,
                 Some (Errorf ''FilePutRequest shouldn't have type dir and a value'')), [])
             else
               (case GetAllClientConns env of
                  Inl err \<Rightarrow> ((None, Some err), [EvGetAllClientConns])
                | Inr clientConns \<Rightarrow> filePutAll env request clientConns [EvGetAllClientConns]))
          else
            (case getClientConnForFile env f of
               (Inl err, tr) \<Rightarrow> ((None, Some err), tr)
             | (Inr c, tr) \<Rightarrow> (InternalFilePut env c request, tr @ [EvInternalFilePut c request])))"

definition exampleEnv :: apiEnv where
  "exampleEnv = \<lparr>GetAllClientConns = Inr [1, 2], GetShard = (\<lambda>_. Inr 3),
     GetMasterClientConn = (\<lambda>_. Inr 1),
     InternalFilePut = (\<lambda>_ _. (Some EmptyInstance, None))\<rparr>"

definition exampleRequest :: "string \<Rightarrow> FilePutRequest" where
  "exampleRequest p =
     \<lparr>File = Some \<lparr>FCommit = None, Path = p\<rparr>, FileType = FILE_TYPE_REGULAR,
      OffsetBytes = 0, Value = ''hello''\<rparr>"

section \<open>Block store: putOneBlock and PutBlock (src/pfs/drive/server/local.go)\<close>

text \<open>
  Byte sequences are \<open>string\<close>s (lists of 8-bit characters). \<open>bufio.Scanner\<close> with its
  default split function \<open>ScanLines\<close> cuts the input at each newline, drops the
  newline and one carriage return before it, and returns a last line without newline when
  it is not empty. A line of \<open>MaxScanTokenSize\<close> bytes or more stops the scan with
  \<open>ErrTooLong\<close>.
\<close>

type_synonym bytes = string

definition newline :: char where
  "newline = CHR 0x0A"

definition dropCR :: "bytes \<Rightarrow> bytes" where
  "dropCR data = (if data \<noteq> [] \<and> last data = CHR 0x0D then butlast data else data)"

fun rawLines :: "bytes \<Rightarrow> bytes \<Rightarrow> bytes list" where
  "rawLines [] cur = (if cur = [] then [] else [cur])"
| "rawLines (c # cs) cur =
     (if c = newline then cur # rawLines cs [] else rawLines cs (cur @ [c]))"

definition MaxScanTokenSize :: nat where
  "MaxScanTokenSize = 64 * 1024"

text \<open>
  The scanner as \<open>putOneBlock\<close> sees it. \<open>tokens\<close> are the lines \<open>Scan\<close> will still
  return and \<open>scanErr\<close> is the error with which the input stops after them (\<open>None\<close> at
  a clean end of input). \<open>reported\<close> is the scanner's own field \<open>err\<close>, which \<open>Err\<close>
  returns: it is set by the call of \<open>Scan\<close> that finds no further token and returns
  false, not before. The input is the whole byte sequence of the request; a read error of
  the request stream is not part of the model.
\<close>

record scanner =
  tokens :: "bytes list"
  scanErr :: "error option"
  reported :: "error option"

definition NewScanner :: "bytes \<Rightarrow> scanner" where
  "NewScanner input =
     (let ls = rawLines input [];
          ok = takeWhile (\<lambda>l. length l < MaxScanTokenSize) ls
      in \<lparr>tokens = map dropCR ok,
          scanErr = (if length ok < length ls
                     then Some (External ''bufio.Scanner: token too long'') else None),
          reported = None\<rparr>)"

text \<open>\<open>Scan\<close> returns the next token, or \<open>None\<close> for false.\<close>

definition Scan :: "scanner \<Rightarrow> bytes option \<times> scanner" where
  "Scan sc =
     (case tokens sc of
        [] \<Rightarrow> (None, sc\<lparr>reported := scanErr sc\<rparr>)
      | t # ts \<Rightarrow> (Some t, sc\<lparr>tokens := ts\<rparr>))"

definition Err :: "scanner \<Rightarrow> error option" where
  "Err sc = reported sc"

text \<open>
  The part of the file system the block store touches: the temporary directory (files
  named by a counter), the block directory (files named by hash), the temporary files
  that are open, and a count of the fallible operations done so far. A fault schedule
  \<open>flt\<close> says which operations fail, by their number: \<open>flt n\<close> makes the operation
  numbered \<open>n\<close> fail. \<open>Close\<close> gives up the file descriptor also when it reports an
  error, as \<open>os.File.Close\<close> does.
\<close>

record blockFS =
  tmp :: "nat \<rightharpoonup> bytes"
  block :: "string \<rightharpoonup> bytes"
  nextTmp :: nat
  opened :: "nat set"
  ops :: nat

definition tick :: "blockFS \<Rightarrow> blockFS" where
  "tick fs = fs\<lparr>ops := Suc (ops fs)\<rparr>"

definition Close :: "nat \<Rightarrow> blockFS \<Rightarrow> blockFS" where
  "Close name fs = (tick fs)\<lparr>opened := opened fs - {name}\<rparr>"

record BlockRef =
  Block :: string
  Lower :: nat
  Upper :: nat

text \<open>
  The loop \<open>for scanner.Scan()\<close> of \<open>putOneBlock\<close>. It carries the file system, the
  scanner and the bytes written so far to the hash and to the temporary file \<open>name\<close>;
  it returns the error of a failed write, if any. Each token is written with its newline
  back; the loop stops once more than \<open>blockSize\<close> bytes are written, or when \<open>Scan\<close>
  returns false.
\<close>

function scanLoop ::
  "(nat \<Rightarrow> bool) \<Rightarrow> nat \<Rightarrow> nat \<Rightarrow> blockFS \<Rightarrow> scanner \<Rightarrow> bytes
    \<Rightarrow> error option \<times> blockFS \<times> scanner \<times> bytes" where
  "scanLoop flt blockSize name fs sc written =
     (case Scan sc of
        (None, sc') \<Rightarrow> (None, fs, sc', written)
      | (Some t, sc') \<Rightarrow>
          let bs = t @ [newline] in
          if flt (ops fs) then (Some (External ''hash.Write''), tick fs, sc', written)
          else if flt (Suc (ops fs))
          then (Some (External ''tmp.Write''), tick (tick fs), sc', written)
          else
            let written' = written @ bs;
                fs' = (tick (tick fs))\<lparr>tmp := (tmp fs)(name \<mapsto> written')\<rparr>
            in if length written' > blockSize then (None, fs', sc', written')
               else scanLoop flt blockSize name fs' sc' written')"
  by pat_completeness auto
termination
  by (relation "measure (\<lambda>(flt, blockSize, name, fs, sc, written). length (tokens sc))")
     (auto simp: Scan_def split: list.splits)

declare scanLoop.simps [simp del]

text \<open>
  The deferred function of \<open>putOneBlock\<close>: close the temporary file; with no result,
  stop there; with a result, remove the temporary file when the block exists and rename
  it to the block path otherwise. \<open>result\<close> and \<open>retErr\<close> are the named results.
\<close>

definition deferred ::
  "(nat \<Rightarrow> bool) \<Rightarrow> nat \<Rightarrow> BlockRef option \<Rightarrow> error option \<Rightarrow> blockFS
    \<Rightarrow> (BlockRef option \<times> error option) \<times> blockFS" where
  "deferred flt name result retErr fs =
     (if flt (ops fs) \<and> retErr = None
      then ((result, Some (External ''tmp.Close'')), Close name fs)
      else
        let fs1 = Close name fs in
        case result of
          None \<Rightarrow> ((result, retErr), fs1)
        | Some r \<Rightarrow>
            if block fs1 (Block r) \<noteq> None then
              (if flt (ops fs1) then
                 ((result, (if retErr = None then Some (External ''os.Remove'') else retErr)),
                  tick fs1)
               else ((result, retErr), (tick fs1)\<lparr>tmp := (tmp fs1)(name := None)\<rparr>))
            else
              (if flt (ops fs1) then
                 ((result, (if retErr = None then Some (External ''os.Rename'') else retErr)),
                  tick fs1)
               else
                 ((result, retErr),
                  (tick fs1)\<lparr>tmp := (tmp fs1)(name := None),
                             block := (block fs1)(Block r := tmp fs1 name)\<rparr>)))"

text \<open>
  \<open>putOneBlock\<close>. \<open>hashOf\<close> stands for \<open>newHash\<close> and \<open>getBlock\<close>, which are not in the
  sources at hand: the name of the block holding the bytes written to the hash.
\<close>

definition putOneBlock ::
  "(nat \<Rightarrow> bool) \<Rightarrow> (bytes \<Rightarrow> string) \<Rightarrow> nat \<Rightarrow> blockFS \<Rightarrow> scanner
    \<Rightarrow> (BlockRef option \<times> error option) \<times> blockFS \<times> scanner" where
  "putOneBlock flt hashOf blockSize fs sc =
     (if flt (ops fs) then ((None, Some (External ''ioutil.TempFile'')), tick fs, sc)
      else
        let name = nextTmp fs;
            fs1 = (tick fs)\<lparr>tmp := (tmp fs)(name \<mapsto> []), nextTmp := Suc name,
                            opened := insert name (opened fs)\<rparr>
        in case scanLoop flt blockSize name fs1 sc [] of
             (Some err, fs2, sc', written) \<Rightarrow>
               (case deferred flt name None (Some err) fs2 of
                  (res, fs3) \<Rightarrow> (res, fs3, sc'))
           | (None, fs2, sc', written) \<Rightarrow>
               (case Err sc' of
                  Some err \<Rightarrow>
                    (case deferred flt name None (Some err) fs2 of
                       (res, fs3) \<Rightarrow> (res, fs3, sc'))
                | None \<Rightarrow>
                    (case deferred flt name
                            (Some \<lparr>Block = hashOf written, Lower = 0, Upper = length written\<rparr>)
                            None fs2 of
                       (res, fs3) \<Rightarrow> (res, fs3, sc'))))"

text \<open>
  The loop of \<open>PutBlock\<close>: one block after the other until a block is shorter than
  \<open>blockSize\<close>. With \<open>blockSize = 0\<close> no block is shorter and the loop never ends:
  the function is partial, and not returning is the value \<open>None\<close>. The result is the
  list handed to \<open>SendAndClose\<close>, or the error returned.
\<close>

partial_function (option) PutBlockLoop ::
  "(nat \<Rightarrow> bool) \<Rightarrow> (bytes \<Rightarrow> string) \<Rightarrow> nat \<Rightarrow> blockFS \<Rightarrow> scanner \<Rightarrow> BlockRef list
    \<Rightarrow> ((error + BlockRef list) \<times> blockFS \<times> scanner) option" where
  "PutBlockLoop flt hashOf blockSize fs sc result =
     (case putOneBlock flt hashOf blockSize fs sc of
        ((_, Some err), fs', sc') \<Rightarrow> Some (Inl err, fs', sc')
      | ((None, None), fs', sc') \<Rightarrow> Some (Inl NilDereference, fs', sc')
      | ((Some blockRef, None), fs', sc') \<Rightarrow>
          if Upper blockRef - Lower blockRef < blockSize
          then Some (Inr (result @ [blockRef]), fs', sc')
          else PutBlockLoop flt hashOf blockSize fs' sc' (result @ [blockRef]))"

definition PutBlock ::
  "(nat \<Rightarrow> bool) \<Rightarrow> (bytes \<Rightarrow> string) \<Rightarrow> nat \<Rightarrow> blockFS \<Rightarrow> bytes
    \<Rightarrow> ((error + BlockRef list) \<times> blockFS \<times> scanner) option" where
  "PutBlock flt hashOf blockSize fs input =
     PutBlockLoop flt hashOf blockSize fs (NewScanner input) []"

text \<open>Example inputs: no fault, an empty store, and the bytes themselves as block name.\<close>

definition noFault :: "nat \<Rightarrow> bool" where
  "noFault n = False"

definition emptyFS :: blockFS where
  "emptyFS = \<lparr>tmp = Map.empty, block = Map.empty, nextTmp = 0, opened = {}, ops = 0\<rparr>"

definition plainHash :: "bytes \<Rightarrow> string" where
  "plainHash bs = bs"

definition helloWorld :: bytes where
  "helloWorld = ''hello'' @ [newline] @ ''world'' @ [newline]"

text \<open>
  The bytes \<open>putOneBlock\<close> writes for a run of tokens: each token with its newline back.
  \<open>blockRefOf\<close> is the reference returned for a block holding these bytes.
\<close>

definition lineBytes :: "bytes list \<Rightarrow> bytes" where
  "lineBytes ts = concat (map (\<lambda>t. t @ [newline]) ts)"

definition blockRefOf :: "(bytes \<Rightarrow> string) \<Rightarrow> bytes \<Rightarrow> BlockRef" where
  "blockRefOf hashOf bs = \<lparr>Block = hashOf bs, Lower = 0, Upper = length bs\<rparr>"

text \<open>
  What the loop of \<open>PutBlock\<close> makes of the lines: runs of lines, one per block.
  \<open>chunksOK\<close> says where a run ends. A run that is not the last holds more than
  \<open>blockSize\<close> bytes, and no more than \<open>blockSize\<close> without its last line; or it holds
  exactly \<open>blockSize\<close> bytes and took the last line there is, and then one empty run
  follows and ends the list. The last run is shorter than \<open>blockSize\<close>.
\<close>

fun chunksOK :: "nat \<Rightarrow> bytes list list \<Rightarrow> bool" where
  "chunksOK B [] \<longleftrightarrow> False"
| "chunksOK B [g] \<longleftrightarrow> length (lineBytes g) < B"
| "chunksOK B (g # h # gs) \<longleftrightarrow>
     length (lineBytes (butlast g)) \<le> B
     \<and> (B < length (lineBytes g) \<or> (length (lineBytes g) = B \<and> h = [] \<and> gs = []))
     \<and> chunksOK B (h # gs)"

text \<open>
  The runs that hold data: none is empty, each stays within \<open>blockSize\<close> without its
  last line, and each but the last holds more than \<open>blockSize\<close> bytes.
\<close>

definition dataChunks :: "nat \<Rightarrow> bytes list list \<Rightarrow> bool" where
  "dataChunks B ds \<longleftrightarrow>
     (\<forall>g\<in>set ds. g \<noteq> [] \<and> length (lineBytes (butlast g)) \<le> B)
     \<and> (\<forall>g\<in>set (butlast ds). B < length (lineBytes g))"

text \<open>
  Example inputs: three short lines, and a line followed by a line of
  \<open>MaxScanTokenSize\<close> bytes, which the scanner refuses.
\<close>

definition abc :: bytes where
  "abc = ''a'' @ [newline] @ ''b'' @ [newline] @ ''c'' @ [newline]"


definition helloWorldRefs :: "BlockRef list" where
  "helloWorldRefs =
     [\<lparr>Block = ''hello'' @ [newline] @ ''world'' @ [newline], Lower = 0, Upper = 12\<rparr>,
      \<lparr>Block = [], Lower = 0, Upper = 0\<rparr>]"


section \<open>Diff store: CreateDiff and ListDiff (src/pfs/drive/server/local.go)\<close>

subsection \<open>Strings and paths of the Go library\<close>

text \<open>\<open>strings.TrimPrefix\<close>, \<open>strings.Split\<close> on a one-character separator and
  \<open>strings.Join\<close>.\<close>

definition TrimPrefix :: "string \<Rightarrow> string \<Rightarrow> string" where
  "TrimPrefix s p = (if HasPrefix s p then drop (length p) s else s)"

fun splitOn :: "char \<Rightarrow> string \<Rightarrow> string \<Rightarrow> string list" where
  "splitOn sep [] cur = [cur]"
| "splitOn sep (c # cs) cur =
     (if c = sep then cur # splitOn sep cs [] else splitOn sep cs (cur @ [c]))"

definition Split :: "string \<Rightarrow> char \<Rightarrow> string list" where
  "Split s sep = splitOn sep s []"

fun joinWith :: "char \<Rightarrow> string list \<Rightarrow> string" where
  "joinWith sep [] = []"
| "joinWith sep [x] = x"
| "joinWith sep (x # y # ys) = x @ sep # joinWith sep (y # ys)"

text \<open>
  \<open>path.Clean\<close>: no empty element, no \<open>.\<close> element, each inner \<open>..\<close> removed with the
  element before it, \<open>..\<close> at the root dropped; the empty path is \<open>.\<close>.
\<close>

fun cleanElems :: "bool \<Rightarrow> string list \<Rightarrow> string list \<Rightarrow> string list" where
  "cleanElems rooted [] out = rev out"
| "cleanElems rooted (c # cs) out =
     (if c = [] \<or> c = ''.'' then cleanElems rooted cs out
      else if c = ''..'' then
        (case out of
           [] \<Rightarrow> if rooted then cleanElems rooted cs [] else cleanElems rooted cs [''..'']
         | e # es \<Rightarrow>
             if e = ''..'' then cleanElems rooted cs (''..'' # out) else cleanElems rooted cs es)
      else cleanElems rooted cs (c # out))"

definition Clean :: "string \<Rightarrow> string" where
  "Clean p =
     (let rooted = HasPrefix p ''/'';
          body = joinWith (CHR ''/'') (cleanElems rooted (Split p (CHR ''/'')) [])
      in if rooted then CHR ''/'' # body else if body = [] then ''.'' else body)"

text \<open>\<open>filepath.Join\<close>: the elements from the first non-empty one on, joined and cleaned.\<close>

definition Join :: "string list \<Rightarrow> string" where
  "Join elems =
     (case dropWhile (\<lambda>e. e = []) elems of [] \<Rightarrow> [] | es \<Rightarrow> Clean (joinWith (CHR ''/'') es))"

text \<open>\<open>path.Dir\<close>: the path up to its last slash, cleaned.\<close>

definition Dir :: "string \<Rightarrow> string" where
  "Dir p = Clean (rev (dropWhile (\<lambda>c. c \<noteq> CHR ''/'') (rev p)))"

text \<open>\<open>strconv.FormatUint\<close> and \<open>strconv.ParseUint\<close> in base 10, on 64 bits.\<close>

fun FormatUint :: "nat \<Rightarrow> string" where
  "FormatUint n =
     (if n < 10 then [''0123456789'' ! n]
      else FormatUint (n div 10) @ [''0123456789'' ! (n mod 10)])"

definition digitVal :: "char \<Rightarrow> nat option" where
  "digitVal c =
     map_of [(CHR ''0'', 0), (CHR ''1'', 1), (CHR ''2'', 2), (CHR ''3'', 3), (CHR ''4'', 4),
             (CHR ''5'', 5), (CHR ''6'', 6), (CHR ''7'', 7), (CHR ''8'', 8), (CHR ''9'', 9)] c"

fun parseDigits :: "string \<Rightarrow> nat \<Rightarrow> nat option" where
  "parseDigits [] acc = Some acc"
| "parseDigits (c # cs) acc =
     (case digitVal c of None \<Rightarrow> None | Some d \<Rightarrow> parseDigits cs (acc * 10 + d))"

definition ParseUint :: "string \<Rightarrow> nat option" where
  "ParseUint s =
     (if s = [] then None
      else case parseDigits s 0 of
             None \<Rightarrow> None
           | Some n \<Rightarrow> if n < 2 ^ 64 then Some n else None)"

subsection \<open>The file tree\<close>

text \<open>
  The files and directories of the node, by path. \<open>os.MkdirAll\<close> makes the directory and
  every missing parent, and fails on a file in the way. \<open>ioutil.WriteFile\<close> opens the file
  (creating or truncating it), writes and closes; a fault either keeps it from opening the
  file or stops the write after some bytes, which then are the content of the file.
  \<open>filepath.Walk\<close> visits the root and everything below it, each directory before its
  entries and the entries of a directory in the order of their names.
\<close>

datatype entry = FileE bytes | DirE

type_synonym fileTree = "(string \<times> entry) list"

fun setEntry :: "('k \<times> 'v) list \<Rightarrow> 'k \<Rightarrow> 'v \<Rightarrow> ('k \<times> 'v) list" where
  "setEntry [] p e = [(p, e)]"
| "setEntry ((q, f) # rest) p e =
     (if q = p then (p, e) # rest else (q, f) # setEntry rest p e)"

definition isDir :: "fileTree \<Rightarrow> string \<Rightarrow> bool" where
  "isDir t p \<longleftrightarrow> p = ''/'' \<or> p = ''.'' \<or> map_of t p = Some DirE"

fun dirChain :: "string \<Rightarrow> string \<Rightarrow> string list" where
  "dirChain seen [] = [seen]"
| "dirChain seen (c # cs) =
     (if c = CHR ''/'' \<and> seen \<noteq> [] then seen # dirChain (seen @ [c]) cs
      else dirChain (seen @ [c]) cs)"

fun mkdirs :: "fileTree \<Rightarrow> string list \<Rightarrow> error + fileTree" where
  "mkdirs t [] = Inr t"
| "mkdirs t (d # ds) =
     (if isDir t d then mkdirs t ds
      else case map_of t d of
             Some _ \<Rightarrow> Inl (External ''mkdir: not a directory'')
           | None \<Rightarrow> mkdirs (setEntry t d DirE) ds)"

definition MkdirAll :: "fileTree \<Rightarrow> string \<Rightarrow> error + fileTree" where
  "MkdirAll t p = mkdirs t (dirChain [] p)"

datatype writeFault = NoFault | OpenFails | WriteFailsAfter nat

definition WriteFile :: "writeFault \<Rightarrow> fileTree \<Rightarrow> string \<Rightarrow> bytes \<Rightarrow> error option \<times> fileTree" where
  "WriteFile fault t p data =
     (if fault = OpenFails then (Some (External ''open''), t)
      else if \<not> isDir t (Dir p) then (Some (External ''open: no such file or directory''), t)
      else if isDir t p then (Some (External ''open: is a directory''), t)
      else case fault of
             WriteFailsAfter n \<Rightarrow> (Some (External ''write''), setEntry t p (FileE (take n data)))
           | _ \<Rightarrow> (None, setEntry t p (FileE data)))"

definition ReadFile :: "fileTree \<Rightarrow> string \<Rightarrow> error + bytes" where
  "ReadFile t p =
     (case map_of t p of
        Some (FileE data) \<Rightarrow> Inr data
      | Some DirE \<Rightarrow> Inl (External ''read: is a directory'')
      | None \<Rightarrow> Inl (External ''open: no such file or directory''))"

definition Walk :: "fileTree \<Rightarrow> string \<Rightarrow> string list" where
  "Walk t root =
     root # sort_key (\<lambda>p. Split p (CHR ''/''))
              (filter (\<lambda>p. HasPrefix p (root @ ''/'')) (map fst t))"

subsection \<open>The diff store\<close>

text \<open>
  \<open>drive.Diff\<close> and \<open>drive.DiffInfo\<close>. The store reads the \<open>Diff\<close> of a record only;
  \<open>Rest\<close> stands for its other fields. \<open>proto.Marshal\<close> and \<open>proto.Unmarshal\<close> are
  parameters of the model.
\<close>

record Diff =
  DCommit :: "Commit option"
  Shard :: nat

record DiffInfo =
  Diff :: "Diff option"
  Rest :: bytes

definition diffDir :: "string \<Rightarrow> string" where
  "diffDir dir = Join [dir, ''diff'']"

definition diffPath :: "string \<Rightarrow> Diff option \<Rightarrow> error + string" where
  "diffPath dir d =
     (case d of
        None \<Rightarrow> Inl NilDereference
      | Some diff \<Rightarrow>
          (case DCommit diff of
             None \<Rightarrow> Inl NilDereference
           | Some c \<Rightarrow>
               (case Repo c of
                  None \<Rightarrow> Inl NilDereference
                | Some r \<Rightarrow> Inr (Join [diffDir dir, Name r, Id c, FormatUint (Shard diff)]))))"

definition CreateDiff ::
  "(DiffInfo \<Rightarrow> error + bytes) \<Rightarrow> bool \<Rightarrow> writeFault \<Rightarrow> string \<Rightarrow> fileTree \<Rightarrow> DiffInfo
    \<Rightarrow> (Empty option \<times> error option) \<times> fileTree" where
  "CreateDiff marshal mkdirFails fault dir t request =
     (case marshal request of
        Inl err \<Rightarrow> ((None, Some err), t)
      | Inr data \<Rightarrow>
          (case diffPath dir (Diff request) of
             Inl err \<Rightarrow> ((None, Some err), t)
           | Inr p \<Rightarrow>
               if mkdirFails then ((None, Some (External ''mkdir'')), t)
               else
                 (case MkdirAll t (Dir p) of
                    Inl err \<Rightarrow> ((None, Some err), t)
                  | Inr t1 \<Rightarrow>
                      (case WriteFile fault t1 p data of
                         (Some err, t2) \<Rightarrow> ((None, Some err), t2)
                       | (None, t2) \<Rightarrow> ((Some EmptyInstance, None), t2)))))"

text \<open>\<open>pathToDiff\<close> parses a path as a diff; it returns \<open>None\<close> when the parse fails.\<close>

definition pathToDiff :: "string \<Rightarrow> string \<Rightarrow> Diff option" where
  "pathToDiff dir path =
     (let repoCommitShard = Split (TrimPrefix path (diffDir dir)) (CHR ''/'')
      in if length repoCommitShard < 3 then None
         else case ParseUint (repoCommitShard ! 2) of
                None \<Rightarrow> None
              | Some shard \<Rightarrow>
                  Some \<lparr>DCommit = Some \<lparr>Repo = Some \<lparr>Name = repoCommitShard ! 0\<rparr>,
                                       Id = repoCommitShard ! 1\<rparr>,
                        Shard = shard\<rparr>)"

definition readDiff ::
  "(bytes \<Rightarrow> error + DiffInfo) \<Rightarrow> string \<Rightarrow> fileTree \<Rightarrow> Diff option \<Rightarrow> error + DiffInfo" where
  "readDiff unmarshal dir t d =
     (case diffPath dir d of
        Inl err \<Rightarrow> Inl err
      | Inr p \<Rightarrow> (case ReadFile t p of Inl err \<Rightarrow> Inl err | Inr data \<Rightarrow> unmarshal data))"

text \<open>
  The function \<open>ListDiff\<close> hands to \<open>filepath.Walk\<close>, run over the paths of the walk; it
  collects the records sent to the client. The first error ends the walk.
\<close>

fun listDiffWalk ::
  "(bytes \<Rightarrow> error + DiffInfo) \<Rightarrow> string \<Rightarrow> fileTree \<Rightarrow> nat \<Rightarrow> string list \<Rightarrow> DiffInfo list
    \<Rightarrow> DiffInfo list \<times> error option" where
  "listDiffWalk unmarshal dir t shard [] sent = (sent, None)"
| "listDiffWalk unmarshal dir t shard (path # paths) sent =
     (case pathToDiff dir path of
        None \<Rightarrow> listDiffWalk unmarshal dir t shard paths sent
      | Some diff \<Rightarrow>
          if Shard diff = shard then
            (case readDiff unmarshal dir t (Some diff) of
               Inl err \<Rightarrow> (sent, Some err)
             | Inr diffInfo \<Rightarrow> listDiffWalk unmarshal dir t shard paths (sent @ [diffInfo]))
          else listDiffWalk unmarshal dir t shard paths sent)"

definition ListDiff ::
  "(bytes \<Rightarrow> error + DiffInfo) \<Rightarrow> string \<Rightarrow> fileTree \<Rightarrow> nat \<Rightarrow> DiffInfo list \<times> error option" where
  "ListDiff unmarshal dir t shard = listDiffWalk unmarshal dir t shard (Walk t (diffDir dir)) []"

text \<open>
  An example store: the root \<open>/pfs\<close>, one record for repo \<open>r\<close>, commit \<open>c1\<close>, shard 0,
  and a codec that knows this one record.
\<close>

definition exampleDiffInfo :: DiffInfo where
  "exampleDiffInfo =
     \<lparr>Diff = Some \<lparr>DCommit = Some \<lparr>Repo = Some \<lparr>Name = ''r''\<rparr>, Id = ''c1''\<rparr>, Shard = 0\<rparr>,
      Rest = ''appends''\<rparr>"

definition exampleMarshal :: "DiffInfo \<Rightarrow> error + bytes" where
  "exampleMarshal info =
     (if info = exampleDiffInfo then Inr ''r,c1,0,appends'' else Inr (Rest info))"

definition exampleUnmarshal :: "bytes \<Rightarrow> error + DiffInfo" where
  "exampleUnmarshal data =
     (if data = ''r,c1,0,appends'' then Inr exampleDiffInfo
      else Inl (External ''proto: cannot parse''))"

definition exampleTree :: fileTree where
  "exampleTree = [(''/pfs'', DirE), (''/pfs/diff'', DirE)]"

definition storedTree :: fileTree where
  "storedTree =
     [(''/pfs'', DirE), (''/pfs/diff'', DirE), (''/pfs/diff/r'', DirE),
      (''/pfs/diff/r/c1'', DirE), (''/pfs/diff/r/c1/0'', FileE ''r,c1,0,appends'')]"

section \<open>Replica reconciliation: Master (src/pfs/route/route.go, package server)\<close>

text \<open>
  \<open>pfs.CommitInfo\<close> as the Go struct generated for the message: the message-typed fields
  are pointers. Here a pointer is an address in a store of objects (\<open>None\<close> is nil),
  because \<open>Master\<close> compares two structs with \<open>!=\<close>, which compares pointer fields by
  address. The lists of commits are the structs behind the pointers of the Go slices.
\<close>

datatype CommitType = COMMIT_TYPE_NONE | COMMIT_TYPE_READ | COMMIT_TYPE_WRITE

type_synonym address = nat

record CommitInfo =
  Commit :: "address option"
  CommitType :: CommitType
  ParentCommit :: "address option"
  Started :: "address option"
  Finished :: "address option"
  SizeBytes :: nat

datatype object = CommitObject Commit | TimestampObject int int

type_synonym store = "address \<rightharpoonup> object"

record RepoInfo =
  RRepo :: "Repo option"

text \<open>
  The collaborators of \<open>Master\<close>: the router, the API of a replica reached through a
  connection, and the local driver. The driver has state, so its answers may depend on the
  calls made before: they take the trace so far.
\<close>

datatype masterEvent =
    EvRepoCreate "Repo option" nat
  | EvPullDiff clientConn "address option" nat
  | EvDiffPush "address option" bytes

record masterEnv =
  GetReplicaClientConns :: "nat \<Rightarrow> error + clientConn list"
  RepoList :: "clientConn \<Rightarrow> error + RepoInfo list"
  CommitList :: "clientConn \<Rightarrow> Repo option \<Rightarrow> error + CommitInfo list"
  PullDiff :: "clientConn \<Rightarrow> address option \<Rightarrow> nat \<Rightarrow> error + bytes"
  driverRepoCreate :: "masterEvent list \<Rightarrow> Repo option \<Rightarrow> nat \<Rightarrow> error option"
  driverCommitList :: "masterEvent list \<Rightarrow> Repo option \<Rightarrow> nat \<Rightarrow> error + CommitInfo list"
  driverDiffPush :: "masterEvent list \<Rightarrow> address option \<Rightarrow> bytes \<Rightarrow> error option"

text \<open>
  The loop over the commits of the replica, \<open>i\<close> the index: a commit held locally is
  compared with \<open>!=\<close> (equality of the struct values, addresses included), a commit not
  held is pulled and pushed to the driver.
\<close>

fun masterCommits ::
  "masterEnv \<Rightarrow> clientConn \<Rightarrow> nat \<Rightarrow> CommitInfo list \<Rightarrow> nat \<Rightarrow> CommitInfo list
    \<Rightarrow> masterEvent list \<Rightarrow> error option \<times> masterEvent list" where
  "masterCommits env conn shard localCommitInfo i [] tr = (None, tr)"
| "masterCommits env conn shard localCommitInfo i (commitInfo # rest) tr =
     (if i < length localCommitInfo then
        (if commitInfo \<noteq> localCommitInfo ! i then (Some (Errorf ''divergent data''), tr)
         else masterCommits env conn shard localCommitInfo (Suc i) rest tr)
      else
        (case PullDiff env conn (Commit commitInfo) shard of
           Inl err \<Rightarrow> (Some err, tr @ [EvPullDiff conn (Commit commitInfo) shard])
         | Inr data \<Rightarrow>
             let tr1 = tr @ [EvPullDiff conn (Commit commitInfo) shard];
                 tr2 = tr1 @ [EvDiffPush (Commit commitInfo) data]
             in (case driverDiffPush env tr1 (Commit commitInfo) data of
                   Some err \<Rightarrow> (Some err, tr2)
                 | None \<Rightarrow> masterCommits env conn shard localCommitInfo (Suc i) rest tr2)))"

fun masterRepos ::
  "masterEnv \<Rightarrow> clientConn \<Rightarrow> nat \<Rightarrow> RepoInfo list \<Rightarrow> masterEvent list
    \<Rightarrow> error option \<times> masterEvent list" where
  "masterRepos env conn shard [] tr = (None, tr)"
| "masterRepos env conn shard (repoInfo # rest) tr =
     (let tr1 = tr @ [EvRepoCreate (RRepo repoInfo) shard] in
      case driverRepoCreate env tr (RRepo repoInfo) shard of
        Some err \<Rightarrow> (Some err, tr1)
      | None \<Rightarrow>
          (case CommitList env conn (RRepo repoInfo) of
             Inl err \<Rightarrow> (Some err, tr1)
           | Inr remote \<Rightarrow>
               (case driverCommitList env tr1 (RRepo repoInfo) shard of
                  Inl err \<Rightarrow> (Some err, tr1)
                | Inr localCommitInfo \<Rightarrow>
                    (case masterCommits env conn shard localCommitInfo 0 remote tr1 of
                       (Some err, tr2) \<Rightarrow> (Some err, tr2)
                     | (None, tr2) \<Rightarrow> masterRepos env conn shard rest tr2))))"

fun masterConns ::
  "masterEnv \<Rightarrow> nat \<Rightarrow> clientConn list \<Rightarrow> masterEvent list
    \<Rightarrow> error option \<times> masterEvent list" where
  "masterConns env shard [] tr = (None, tr)"
| "masterConns env shard (conn # rest) tr =
     (case RepoList env conn of
        Inl err \<Rightarrow> (Some err, tr)
      | Inr repoInfos \<Rightarrow>
          (case masterRepos env conn shard repoInfos tr of
             (Some err, tr1) \<Rightarrow> (Some err, tr1)
           | (None, tr1) \<Rightarrow> masterConns env shard rest tr1))"

definition Master :: "masterEnv \<Rightarrow> nat \<Rightarrow> error option \<times> masterEvent list" where
  "Master env shard =
     (case GetReplicaClientConns env shard of
        Inl err \<Rightarrow> (Some err, [])
      | Inr clientConns \<Rightarrow> masterConns env shard clientConns [])"

text \<open>
  The comparison the specification asks for, in its words: two CommitInfo are equal field
  by field when the objects their pointers lead to are equal and the other fields are equal.
\<close>

definition fieldByFieldEqual :: "store \<Rightarrow> CommitInfo \<Rightarrow> CommitInfo \<Rightarrow> bool" where
  "fieldByFieldEqual h a b \<longleftrightarrow>
     map_option h (Commit a) = map_option h (Commit b)
     \<and> CommitType a = CommitType b
     \<and> map_option h (ParentCommit a) = map_option h (ParentCommit b)
     \<and> map_option h (Started a) = map_option h (Started b)
     \<and> map_option h (Finished a) = map_option h (Finished b)
     \<and> SizeBytes a = SizeBytes b"

text \<open>
  An example: the node holds commit \<open>c1\<close> of repo \<open>r\<close>; the replica reports \<open>c1\<close> and
  \<open>c2\<close>. The local struct and the one decoded from the replica's answer point to
  different objects with the same content.
\<close>

definition exampleStore :: store where
  "exampleStore =
     [1 \<mapsto> CommitObject \<lparr>Repo = Some \<lparr>Name = ''r''\<rparr>, Id = ''c1''\<rparr>,
      2 \<mapsto> CommitObject \<lparr>Repo = Some \<lparr>Name = ''r''\<rparr>, Id = ''c1''\<rparr>,
      3 \<mapsto> CommitObject \<lparr>Repo = Some \<lparr>Name = ''r''\<rparr>, Id = ''c2''\<rparr>]"

definition commitAt :: "address \<Rightarrow> CommitInfo" where
  "commitAt a =
     \<lparr>Commit = Some a, CommitType = COMMIT_TYPE_READ, ParentCommit = None, Started = None,
      Finished = None, SizeBytes = 12\<rparr>"

definition exampleMasterEnv :: masterEnv where
  "exampleMasterEnv =
     \<lparr>GetReplicaClientConns = (\<lambda>_. Inr [7]),
      RepoList = (\<lambda>_. Inr [\<lparr>RRepo = Some \<lparr>Name = ''r''\<rparr>\<rparr>]),
      CommitList = (\<lambda>_ _. Inr [commitAt 2, commitAt 3]),
      PullDiff = (\<lambda>_ _ _. Inr ''diff''),
      driverRepoCreate = (\<lambda>_ _ _. None),
      driverCommitList = (\<lambda>_ _ _. Inr [commitAt 1]),
      driverDiffPush = (\<lambda>_ _ _. None)\<rparr>"

section \<open>Sharder: fillRoles (src/pkg/shard/sharder.go)\<close>

text \<open>
  \<open>ServerRole\<close> and \<open>ServerState\<close>. The Go fields \<open>Masters\<close>, \<open>Replicas\<close> and \<open>Shards\<close>
  are maps from shard to bool in which the sharder only ever stores \<open>true\<close>: they are sets
  here, \<open>len\<close> is \<open>card\<close>. Versions are 64-bit signed integers.
\<close>

record ServerRole =
  Address :: string
  Version :: int
  Masters :: "nat set"
  Replicas :: "nat set"

record ServerState =
  SAddress :: string
  SVersion :: int
  Shards :: "nat set"

definition int64 :: "int \<Rightarrow> int" where
  "int64 x = (x + 2 ^ 63) mod 2 ^ 64 - 2 ^ 63"

definition hasShard :: "ServerRole \<Rightarrow> nat \<Rightarrow> bool" where
  "hasShard serverRole shard \<longleftrightarrow> shard \<in> Masters serverRole \<or> shard \<in> Replicas serverRole"

text \<open>\<open>shards\<close>: the masters, then the replicas (each in one of the orders Go may choose).\<close>

definition shards :: "ServerRole \<Rightarrow> nat list" where
  "shards serverRole =
     sorted_list_of_set (Masters serverRole) @ sorted_list_of_set (Replicas serverRole)"

definition containsShard :: "(int \<times> ServerRole) list \<Rightarrow> nat \<Rightarrow> bool" where
  "containsShard roles shard \<longleftrightarrow> (\<exists>(version, serverRole) \<in> set roles. hasShard serverRole shard)"

text \<open>
  The server of the node, with the calls \<open>fillRoles\<close> makes on it, and what the loop does
  that can be seen from outside: the calls and the versions sent on \<open>versionChan\<close>.
  The Go code starts the calls for one role version together and waits for all of them;
  they are listed here in the order of \<open>shards\<close>, and the error kept is the first in this
  order.
\<close>

record Server =
  AddShard :: "nat \<Rightarrow> int \<Rightarrow> error option"
  RemoveShard :: "nat \<Rightarrow> int \<Rightarrow> error option"

datatype roleEvent = EvAddShard nat int | EvRemoveShard nat int | EvVersionChan int

fun firstError :: "error option list \<Rightarrow> error option" where
  "firstError [] = None"
| "firstError (None # rest) = firstError rest"
| "firstError (Some err # rest) = Some err"

text \<open>Decoding the roles under the server's role key: \<open>roles\<close> by version, and \<open>versions\<close>.\<close>

fun decodeRoles ::
  "(error + ServerRole) list \<Rightarrow> (int \<times> ServerRole) list \<Rightarrow> int list
    \<Rightarrow> error + (int \<times> ServerRole) list \<times> int list" where
  "decodeRoles [] roles versions = Inr (roles, versions)"
| "decodeRoles (Inl err # rest) roles versions = Inl err"
| "decodeRoles (Inr serverRole # rest) roles versions =
     decodeRoles rest (setEntry roles (Version serverRole) serverRole)
       (versions @ [Version serverRole])"

text \<open>\<open>sort.Sort(versions)\<close>, then \<open>versions[0:2]\<close> when there are more than two.\<close>

definition keptVersions :: "int list \<Rightarrow> int list" where
  "keptVersions versions =
     (let sorted = sort versions in if length sorted > 2 then take 2 sorted else sorted)"

text \<open>The loop "for each new version bring the server up to date".\<close>

fun addRoles ::
  "Server \<Rightarrow> (int \<times> ServerRole) list \<Rightarrow> int list \<Rightarrow> (int \<times> ServerRole) list \<Rightarrow> roleEvent list
    \<Rightarrow> error option \<times> (int \<times> ServerRole) list \<times> roleEvent list" where
  "addRoles server roles [] oldRoles tr = (None, oldRoles, tr)"
| "addRoles server roles (version # versions) oldRoles tr =
     (if map_of oldRoles version \<noteq> None then addRoles server roles versions oldRoles tr
      else
        let serverRole =
              (case map_of roles version of
                 Some r \<Rightarrow> r
               | None \<Rightarrow> \<lparr>Address = [], Version = 0, Masters = {}, Replicas = {}\<rparr>);
            new = filter (\<lambda>shard. \<not> containsShard oldRoles shard) (shards serverRole);
            tr1 = tr @ map (\<lambda>shard. EvAddShard shard (int64 (version - 1))) new
        in case firstError (map (\<lambda>shard. AddShard server shard (int64 (version - 1))) new) of
             Some addShardErr \<Rightarrow> (Some addShardErr, oldRoles, tr1)
           | None \<Rightarrow>
               addRoles server roles versions (setEntry oldRoles version serverRole)
                 (tr1 @ [EvVersionChan version]))"

text \<open>The loop "see if there are any old roles that aren't needed".\<close>

fun removeRoles ::
  "Server \<Rightarrow> (int \<times> ServerRole) list \<Rightarrow> (int \<times> ServerRole) list \<Rightarrow> roleEvent list
    \<Rightarrow> error option \<times> roleEvent list" where
  "removeRoles server roles [] tr = (None, tr)"
| "removeRoles server roles ((version, serverRole) # oldRoles) tr =
     (if map_of roles version \<noteq> None then removeRoles server roles oldRoles tr
      else
        let gone = filter (\<lambda>shard. \<not> containsShard roles shard) (shards serverRole);
            tr1 = tr @ map (\<lambda>shard. EvRemoveShard shard (int64 (version - 1))) gone
        in case firstError (map (\<lambda>shard. RemoveShard server shard (int64 (version - 1))) gone) of
             Some removeShardErr \<Rightarrow> (Some removeShardErr, tr1)
           | None \<Rightarrow> removeRoles server roles oldRoles tr1)"

text \<open>
  The function \<open>fillRoles\<close> hands to \<open>WatchAll\<close>, called with the roles found under the
  server's role key each time they change. It returns its error, the new \<open>oldRoles\<close>
  and the calls made.
\<close>

definition fillRolesWatch ::
  "Server \<Rightarrow> (int \<times> ServerRole) list \<Rightarrow> (error + ServerRole) list
    \<Rightarrow> error option \<times> (int \<times> ServerRole) list \<times> roleEvent list" where
  "fillRolesWatch server oldRoles encodedServerRoles =
     (case decodeRoles encodedServerRoles [] [] of
        Inl err \<Rightarrow> (Some err, oldRoles, [])
      | Inr (roles, allVersions) \<Rightarrow>
          let versions = keptVersions allVersions in
          (case addRoles server roles versions oldRoles [] of
             (Some err, oldRoles1, tr) \<Rightarrow> (Some err, oldRoles1, tr)
           | (None, oldRoles1, tr) \<Rightarrow>
               (case removeRoles server roles oldRoles1 tr of
                  (Some err, tr1) \<Rightarrow> (Some err, oldRoles1, tr1)
                | (None, tr1) \<Rightarrow>
                    (None,
                     fold (\<lambda>version acc.
                             setEntry acc version
                               (case map_of roles version of
                                  Some r \<Rightarrow> r
                                | None \<Rightarrow> \<lparr>Address = [], Version = 0, Masters = {}, Replicas = {}\<rparr>))
                          versions [],
                     tr1))))"

text \<open>
  \<open>fillRoles\<close>: \<open>WatchAll\<close> calls the function above for each state of the role key in
  turn, starting with no old roles, and stops at the first error.
\<close>

fun fillRolesFrom ::
  "Server \<Rightarrow> (int \<times> ServerRole) list \<Rightarrow> (error + ServerRole) list list \<Rightarrow> roleEvent list
    \<Rightarrow> error option \<times> (int \<times> ServerRole) list \<times> roleEvent list" where
  "fillRolesFrom server oldRoles [] tr = (None, oldRoles, tr)"
| "fillRolesFrom server oldRoles (encodedServerRoles # later) tr =
     (case fillRolesWatch server oldRoles encodedServerRoles of
        (Some err, oldRoles1, tr1) \<Rightarrow> (Some err, oldRoles1, tr @ tr1)
      | (None, oldRoles1, tr1) \<Rightarrow> fillRolesFrom server oldRoles1 later (tr @ tr1))"

definition fillRoles ::
  "Server \<Rightarrow> (error + ServerRole) list list
    \<Rightarrow> error option \<times> (int \<times> ServerRole) list \<times> roleEvent list" where
  "fillRoles server watched = fillRolesFrom server [] watched []"

text \<open>An example: a server that never fails, and roles of versions 1, 2 and 3.\<close>

definition goodServer :: Server where
  "goodServer = \<lparr>AddShard = (\<lambda>_ _. None), RemoveShard = (\<lambda>_ _. None)\<rparr>"

definition roleV :: "int \<Rightarrow> nat \<Rightarrow> ServerRole" where
  "roleV v shard = \<lparr>Address = ''a'', Version = v, Masters = {shard}, Replicas = {}\<rparr>"

section \<open>Sharder: AssignRoles (src/pkg/shard/sharder.go)\<close>

text \<open>
  The tables of one pass: \<open>serverRoles\<close> by address, \<open>masters\<close> by shard, and
  \<open>replicas\<close>, the addresses by shard (a shard without entry has the empty list).
  Counts are 64-bit unsigned in the source; the only constant of that range the pass uses
  is \<open>math.MaxUint64\<close>, and the only product that can wrap is the number of replica roles.
\<close>

definition MaxUint64 :: nat where
  "MaxUint64 = 2 ^ 64 - 1"

definition removeReplica :: "(nat \<Rightarrow> string list) \<Rightarrow> nat \<Rightarrow> string \<Rightarrow> (nat \<Rightarrow> string list)" where
  "removeReplica replicas shard address =
     replicas(shard := filter (\<lambda>replicaAddress. address \<noteq> replicaAddress) (replicas shard))"

text \<open>
  \<open>assignMaster\<close> and \<open>assignReplica\<close> return whether they assigned, with the tables and
  the remainder they may have changed (arguments the source updates in place).
\<close>

definition assignMaster ::
  "(string \<rightharpoonup> ServerRole) \<Rightarrow> (nat \<rightharpoonup> string) \<Rightarrow> string \<Rightarrow> nat \<Rightarrow> nat \<Rightarrow> nat
    \<Rightarrow> bool \<times> (string \<rightharpoonup> ServerRole) \<times> (nat \<rightharpoonup> string) \<times> nat" where
  "assignMaster serverRoles masters address shard masterRolesPerServer masterRolesRemainder =
     (case serverRoles address of
        None \<Rightarrow> (False, serverRoles, masters, masterRolesRemainder)
      | Some serverRole \<Rightarrow>
          if card (Masters serverRole) > masterRolesPerServer then
            (False, serverRoles, masters, masterRolesRemainder)
          else if card (Masters serverRole) = masterRolesPerServer \<and> masterRolesRemainder = 0 then
            (False, serverRoles, masters, masterRolesRemainder)
          else if hasShard serverRole shard then
            (False, serverRoles, masters, masterRolesRemainder)
          else
            (True,
             serverRoles(address \<mapsto> serverRole\<lparr>Masters := insert shard (Masters serverRole)\<rparr>),
             masters(shard \<mapsto> address),
             (if card (Masters serverRole) = masterRolesPerServer \<and> masterRolesRemainder > 0
              then masterRolesRemainder - 1 else masterRolesRemainder)))"

definition assignReplica ::
  "(string \<rightharpoonup> ServerRole) \<Rightarrow> (nat \<rightharpoonup> string) \<Rightarrow> (nat \<Rightarrow> string list) \<Rightarrow> string \<Rightarrow> nat \<Rightarrow> nat
    \<Rightarrow> nat \<Rightarrow> bool \<times> (string \<rightharpoonup> ServerRole) \<times> (nat \<Rightarrow> string list) \<times> nat" where
  "assignReplica serverRoles masters replicas address shard replicaRolesPerServer
      replicaRolesRemainder =
     (case serverRoles address of
        None \<Rightarrow> (False, serverRoles, replicas, replicaRolesRemainder)
      | Some serverRole \<Rightarrow>
          if card (Replicas serverRole) > replicaRolesPerServer then
            (False, serverRoles, replicas, replicaRolesRemainder)
          else if card (Replicas serverRole) = replicaRolesPerServer \<and> replicaRolesRemainder = 0
          then (False, serverRoles, replicas, replicaRolesRemainder)
          else if hasShard serverRole shard then
            (False, serverRoles, replicas, replicaRolesRemainder)
          else
            (True,
             serverRoles(address \<mapsto> serverRole\<lparr>Replicas := insert shard (Replicas serverRole)\<rparr>),
             replicas(shard := replicas shard @ [address]),
             (if card (Replicas serverRole) = replicaRolesPerServer \<and> replicaRolesRemainder > 0
              then replicaRolesRemainder - 1 else replicaRolesRemainder)))"

text \<open>
  \<open>swapReplica\<close> walks two Go maps, whose order Go does not fix: the roles and the
  replicas of a role. The orders come as arguments, \<open>rangeRoles\<close> for the addresses and
  \<open>rangeReplicas\<close> for the shards of an address; an entry that is not a key of the map
  walked is passed over. \<open>findSwap\<close> is the search of the two loops for the first pair
  they accept.
\<close>

fun findSwapShard :: "ServerRole \<Rightarrow> ServerRole \<Rightarrow> nat \<Rightarrow> nat list \<Rightarrow> nat option" where
  "findSwapShard serverRole swapServerRole shard [] = None"
| "findSwapShard serverRole swapServerRole shard (swapShard # rest) =
     (if swapShard \<notin> Replicas swapServerRole then
        findSwapShard serverRole swapServerRole shard rest
      else if hasShard serverRole swapShard then
        findSwapShard serverRole swapServerRole shard rest
      else if hasShard swapServerRole shard then
        findSwapShard serverRole swapServerRole shard rest
      else Some swapShard)"

fun findSwap ::
  "(string \<rightharpoonup> ServerRole) \<Rightarrow> ServerRole \<Rightarrow> string \<Rightarrow> nat \<Rightarrow> (string \<Rightarrow> nat list) \<Rightarrow> string list
    \<Rightarrow> (string \<times> ServerRole \<times> nat) option" where
  "findSwap serverRoles serverRole address shard rangeReplicas [] = None"
| "findSwap serverRoles serverRole address shard rangeReplicas (swapID # rest) =
     (if swapID = address then findSwap serverRoles serverRole address shard rangeReplicas rest
      else
        case serverRoles swapID of
          None \<Rightarrow> findSwap serverRoles serverRole address shard rangeReplicas rest
        | Some swapServerRole \<Rightarrow>
            (case findSwapShard serverRole swapServerRole shard (rangeReplicas swapID) of
               None \<Rightarrow> findSwap serverRoles serverRole address shard rangeReplicas rest
             | Some swapShard \<Rightarrow> Some (swapID, swapServerRole, swapShard)))"

definition swapReplica ::
  "(string \<rightharpoonup> ServerRole) \<Rightarrow> (nat \<rightharpoonup> string) \<Rightarrow> (nat \<Rightarrow> string list) \<Rightarrow> string \<Rightarrow> nat \<Rightarrow> nat
    \<Rightarrow> string list \<Rightarrow> (string \<Rightarrow> nat list)
    \<Rightarrow> bool \<times> (string \<rightharpoonup> ServerRole) \<times> (nat \<Rightarrow> string list)" where
  "swapReplica serverRoles masters replicas address shard replicaRolesPerServer
      rangeRoles rangeReplicas =
     (case serverRoles address of
        None \<Rightarrow> (False, serverRoles, replicas)
      | Some serverRole \<Rightarrow>
          if card (Replicas serverRole) \<ge> replicaRolesPerServer then (False, serverRoles, replicas)
          else
            (case findSwap serverRoles serverRole address shard rangeReplicas rangeRoles of
               None \<Rightarrow> (False, serverRoles, replicas)
             | Some (swapID, swapServerRole, swapShard) \<Rightarrow>
                 let serverRoles1 =
                       serverRoles(swapID \<mapsto>
                         swapServerRole\<lparr>Replicas := Replicas swapServerRole - {swapShard}\<rparr>);
                     replicas1 = removeReplica replicas swapShard swapID
                 in case assignReplica serverRoles1 masters replicas1 swapID shard MaxUint64 0 of
                      (_, serverRoles2, replicas2, _) \<Rightarrow>
                        (case assignReplica serverRoles2 masters replicas2 address swapShard
                                replicaRolesPerServer 0 of
                           (_, serverRoles3, replicas3, _) \<Rightarrow> (True, serverRoles3, replicas3))))"

text \<open>
  The orders in which one pass walks its Go maps, by the place of the loop: the walk over
  the server states that ends the candidates of a shard (round 0 for the masters, round
  \<open>replica + 1\<close> for the replicas), the walk over the server states that tries the swaps,
  the two walks inside \<open>swapReplica\<close>, and the walk over the new roles that fills the
  addresses.
\<close>

record ranges =
  rangeServerStates :: "nat \<Rightarrow> nat \<Rightarrow> string list"
  rangeSwapStates :: "nat \<Rightarrow> nat \<Rightarrow> string list"
  rangeServerRoles :: "nat \<Rightarrow> nat \<Rightarrow> string \<Rightarrow> string list"
  rangeReplicas :: "nat \<Rightarrow> nat \<Rightarrow> string \<Rightarrow> string \<Rightarrow> nat list"
  rangeNewRoles :: "string list"

text \<open>The candidates of a shard, tried in order until one takes it.\<close>

fun tryMaster ::
  "(string \<rightharpoonup> ServerRole) \<Rightarrow> (nat \<rightharpoonup> string) \<Rightarrow> nat \<Rightarrow> nat \<Rightarrow> nat \<Rightarrow> string list
    \<Rightarrow> ((string \<rightharpoonup> ServerRole) \<times> (nat \<rightharpoonup> string) \<times> nat) option" where
  "tryMaster serverRoles masters shard perServer remainder [] = None"
| "tryMaster serverRoles masters shard perServer remainder (address # rest) =
     (case assignMaster serverRoles masters address shard perServer remainder of
        (True, serverRoles', masters', remainder') \<Rightarrow> Some (serverRoles', masters', remainder')
      | (False, _) \<Rightarrow> tryMaster serverRoles masters shard perServer remainder rest)"

fun tryReplica ::
  "(string \<rightharpoonup> ServerRole) \<Rightarrow> (nat \<rightharpoonup> string) \<Rightarrow> (nat \<Rightarrow> string list) \<Rightarrow> nat \<Rightarrow> nat \<Rightarrow> nat
    \<Rightarrow> string list \<Rightarrow> ((string \<rightharpoonup> ServerRole) \<times> (nat \<Rightarrow> string list) \<times> nat) option" where
  "tryReplica serverRoles masters replicas shard perServer remainder [] = None"
| "tryReplica serverRoles masters replicas shard perServer remainder (address # rest) =
     (case assignReplica serverRoles masters replicas address shard perServer remainder of
        (True, serverRoles', replicas', remainder') \<Rightarrow> Some (serverRoles', replicas', remainder')
      | (False, _) \<Rightarrow> tryReplica serverRoles masters replicas shard perServer remainder rest)"

fun trySwap ::
  "(string \<rightharpoonup> ServerRole) \<Rightarrow> (nat \<rightharpoonup> string) \<Rightarrow> (nat \<Rightarrow> string list) \<Rightarrow> nat \<Rightarrow> nat
    \<Rightarrow> (string \<Rightarrow> string list) \<Rightarrow> (string \<Rightarrow> string \<Rightarrow> nat list) \<Rightarrow> string list
    \<Rightarrow> ((string \<rightharpoonup> ServerRole) \<times> (nat \<Rightarrow> string list)) option" where
  "trySwap serverRoles masters replicas shard perServer rangeRoles rangeReps [] = None"
| "trySwap serverRoles masters replicas shard perServer rangeRoles rangeReps (address # rest) =
     (case swapReplica serverRoles masters replicas address shard perServer
             (rangeRoles address) (rangeReps address) of
        (True, serverRoles', replicas') \<Rightarrow> Some (serverRoles', replicas')
      | (False, _) \<Rightarrow>
          trySwap serverRoles masters replicas shard perServer rangeRoles rangeReps rest)"

text \<open>
  The candidates for a shard: its old master, its old replicas, the servers that report
  holding it, then every server.
\<close>

definition shardLocations :: "ServerState list \<Rightarrow> nat \<Rightarrow> string list" where
  "shardLocations states shard = map SAddress (filter (\<lambda>st. shard \<in> Shards st) states)"

definition candidates ::
  "(nat \<rightharpoonup> string) \<Rightarrow> (nat \<Rightarrow> string list) \<Rightarrow> ServerState list \<Rightarrow> string list \<Rightarrow> nat
    \<Rightarrow> string list" where
  "candidates oldMasters oldReplicas states everyServer shard =
     (case oldMasters shard of Some address \<Rightarrow> [address] | None \<Rightarrow> [])
     @ oldReplicas shard @ shardLocations states shard @ everyServer"

text \<open>The loop labelled \<open>Master\<close>, over the shards; \<open>None\<close> is the failure to assign.\<close>

fun assignMasters ::
  "(nat \<rightharpoonup> string) \<Rightarrow> (nat \<Rightarrow> string list) \<Rightarrow> ServerState list \<Rightarrow> ranges \<Rightarrow> nat \<Rightarrow> nat list
    \<Rightarrow> (string \<rightharpoonup> ServerRole) \<Rightarrow> (nat \<rightharpoonup> string) \<Rightarrow> nat
    \<Rightarrow> ((string \<rightharpoonup> ServerRole) \<times> (nat \<rightharpoonup> string) \<times> nat) option" where
  "assignMasters oldMasters oldReplicas states rg perServer [] newRoles newMasters remainder =
     Some (newRoles, newMasters, remainder)"
| "assignMasters oldMasters oldReplicas states rg perServer (shard # rest) newRoles newMasters
      remainder =
     (case tryMaster newRoles newMasters shard perServer remainder
             (candidates oldMasters oldReplicas states (rangeServerStates rg 0 shard) shard) of
        None \<Rightarrow> None
      | Some (newRoles', newMasters', remainder') \<Rightarrow>
          assignMasters oldMasters oldReplicas states rg perServer rest newRoles' newMasters'
            remainder')"

text \<open>The two loops over the replicas and the shards, as one walk over the pairs.\<close>

fun assignReplicas ::
  "(nat \<rightharpoonup> string) \<Rightarrow> (nat \<Rightarrow> string list) \<Rightarrow> ServerState list \<Rightarrow> ranges \<Rightarrow> nat
    \<Rightarrow> (nat \<rightharpoonup> string) \<Rightarrow> (nat \<times> nat) list
    \<Rightarrow> (string \<rightharpoonup> ServerRole) \<Rightarrow> (nat \<Rightarrow> string list) \<Rightarrow> nat
    \<Rightarrow> ((string \<rightharpoonup> ServerRole) \<times> (nat \<Rightarrow> string list) \<times> nat) option" where
  "assignReplicas oldMasters oldReplicas states rg perServer newMasters [] newRoles newReplicas
      remainder = Some (newRoles, newReplicas, remainder)"
| "assignReplicas oldMasters oldReplicas states rg perServer newMasters ((replica, shard) # rest)
      newRoles newReplicas remainder =
     (case tryReplica newRoles newMasters newReplicas shard perServer remainder
             (candidates oldMasters oldReplicas states
                (rangeServerStates rg (Suc replica) shard) shard) of
        Some (newRoles', newReplicas', remainder') \<Rightarrow>
          assignReplicas oldMasters oldReplicas states rg perServer newMasters rest newRoles'
            newReplicas' remainder'
      | None \<Rightarrow>
          (case trySwap newRoles newMasters newReplicas shard perServer
                  (rangeServerRoles rg replica shard) (rangeReplicas rg replica shard)
                  (rangeSwapStates rg replica shard) of
             Some (newRoles', newReplicas') \<Rightarrow>
               assignReplicas oldMasters oldReplicas states rg perServer newMasters rest newRoles'
                 newReplicas' remainder
           | None \<Rightarrow> None))"

text \<open>The addresses derived from the new roles.\<close>

record ShardAddresses =
  AMaster :: string
  AReplicas :: "string set"

record Addresses =
  AVersion :: int
  AAddresses :: "nat \<rightharpoonup> ShardAddresses"

fun fillAddresses ::
  "(string \<rightharpoonup> ServerRole) \<Rightarrow> string list \<Rightarrow> (nat \<rightharpoonup> ShardAddresses)
    \<Rightarrow> error + (nat \<rightharpoonup> ShardAddresses)" where
  "fillAddresses newRoles [] addresses = Inr addresses"
| "fillAddresses newRoles (address # rest) addresses =
     (case newRoles address of
        None \<Rightarrow> fillAddresses newRoles rest addresses
      | Some serverRole \<Rightarrow>
          if \<exists>shard \<in> Masters serverRole \<union> Replicas serverRole. addresses shard = None
          then Inl NilDereference
          else fillAddresses newRoles rest
                 (\<lambda>shard. case addresses shard of
                    None \<Rightarrow> None
                  | Some shardAddresses \<Rightarrow>
                      Some (shardAddresses
                        \<lparr>AMaster := (if shard \<in> Masters serverRole then address
                                      else AMaster shardAddresses),
                         AReplicas := (if shard \<in> Replicas serverRole
                                        then insert address (AReplicas shardAddresses)
                                        else AReplicas shardAddresses)\<rparr>)))"

text \<open>
  One pass of the function \<open>AssignRoles\<close> hands to \<open>WatchAll\<close>, from the decoded server
  states to the new roles and addresses. The deletion of stale roles works on the discovery
  store only; \<open>staleRolesErr\<close> is its outcome, and \<open>setErr\<close> the outcome of writing the
  new roles and addresses to the store. \<open>oldServers\<close>, \<open>oldMasters\<close>, \<open>oldReplicas\<close> and
  \<open>version\<close> are what the previous pass left.
\<close>

datatype passResult =
    NoChange
  | PassError error
  | FailedToAssignRoles
  | Assigned "string \<rightharpoonup> ServerRole" "nat \<rightharpoonup> string" "nat \<Rightarrow> string list" Addresses

definition sameServers :: "string set \<Rightarrow> ServerState list \<Rightarrow> bool" where
  "sameServers oldServers states \<longleftrightarrow>
     card oldServers = card (SAddress ` set states) \<and> oldServers \<subseteq> SAddress ` set states"

definition initialRoles :: "int \<Rightarrow> ServerState list \<Rightarrow> (string \<rightharpoonup> ServerRole)" where
  "initialRoles version states =
     fold (\<lambda>serverState newRoles.
             newRoles(SAddress serverState \<mapsto>
               \<lparr>Address = SAddress serverState, Version = version, Masters = {}, Replicas = {}\<rparr>))
          states Map.empty"

definition assignRolesPass ::
  "nat \<Rightarrow> nat \<Rightarrow> int \<Rightarrow> string set \<Rightarrow> (nat \<rightharpoonup> string) \<Rightarrow> (nat \<Rightarrow> string list) \<Rightarrow> ranges
    \<Rightarrow> error option \<Rightarrow> error option \<Rightarrow> ServerState list \<Rightarrow> passResult" where
  "assignRolesPass numShards numReplicas version oldServers oldMasters oldReplicas rg
      staleRolesErr setErr states =
     (if states = [] then NoChange
      else
        let masterRolesPerServer = numShards div length states;
            masterRolesRemainder = numShards mod length states;
            replicaRolesPerServer = ((numShards * numReplicas) mod 2 ^ 64) div length states;
            replicaRolesRemainder = ((numShards * numReplicas) mod 2 ^ 64) mod length states
        in case staleRolesErr of
             Some err \<Rightarrow> PassError err
           | None \<Rightarrow>
               if sameServers oldServers states then NoChange
               else
                 (case assignMasters oldMasters oldReplicas states rg masterRolesPerServer
                         [0..<numShards] (initialRoles version states) Map.empty
                         masterRolesRemainder of
                    None \<Rightarrow> FailedToAssignRoles
                  | Some (newRoles1, newMasters, _) \<Rightarrow>
                      (case assignReplicas oldMasters oldReplicas states rg replicaRolesPerServer
                              newMasters (List.product [0..<numReplicas] [0..<numShards])
                              newRoles1 (\<lambda>shard. []) replicaRolesRemainder of
                         None \<Rightarrow> FailedToAssignRoles
                       | Some (newRoles, newReplicas, _) \<Rightarrow>
                           (case setErr of
                              Some err \<Rightarrow> PassError err
                            | None \<Rightarrow>
                                (case fillAddresses newRoles (rangeNewRoles rg)
                                        (\<lambda>shard. if shard < numShards
                                                  then Some \<lparr>AMaster = [], AReplicas = {}\<rparr>
                                                  else None) of
                                   Inl err \<Rightarrow> PassError err
                                 | Inr addresses \<Rightarrow>
                                     Assigned newRoles newMasters newReplicas
                                       \<lparr>AVersion = version, AAddresses = addresses\<rparr>)))))"

text \<open>
  An example: three servers that hold nothing yet, and every walk over the servers in
  the order \<open>a\<close>, \<open>b\<close>, \<open>c\<close>.
\<close>

definition serverNamed :: "string \<Rightarrow> ServerState" where
  "serverNamed a = \<lparr>SAddress = a, SVersion = -1, Shards = {}\<rparr>"

definition plainRanges :: "string list \<Rightarrow> nat \<Rightarrow> ranges" where
  "plainRanges servers numShards =
     \<lparr>rangeServerStates = (\<lambda>_ _. servers), rangeSwapStates = (\<lambda>_ _. servers),
      rangeServerRoles = (\<lambda>_ _ _. servers), rangeReplicas = (\<lambda>_ _ _ _. [0..<numShards]),
      rangeNewRoles = servers\<rparr>"

text \<open>
  What the proofs about a pass keep track of. \<open>rolesOK\<close>: finitely many roles, each with
  finite sets and no shard both master and replica. \<open>countsOK\<close>, for the number \<open>c\<close> of
  roles of one kind per server: no server has more than \<open>perServer + 1\<close>, the servers
  above \<open>perServer\<close> are paid for by the remainder used so far, and \<open>assigned\<close> roles are
  assigned.
\<close>

definition masterCount :: "(string \<rightharpoonup> ServerRole) \<Rightarrow> string \<Rightarrow> nat" where
  "masterCount serverRoles a = (case serverRoles a of None \<Rightarrow> 0 | Some r \<Rightarrow> card (Masters r))"

definition replicaCount :: "(string \<rightharpoonup> ServerRole) \<Rightarrow> string \<Rightarrow> nat" where
  "replicaCount serverRoles a = (case serverRoles a of None \<Rightarrow> 0 | Some r \<Rightarrow> card (Replicas r))"

definition rolesOK :: "(string \<rightharpoonup> ServerRole) \<Rightarrow> bool" where
  "rolesOK serverRoles \<longleftrightarrow>
     finite (dom serverRoles)
     \<and> (\<forall>a r. serverRoles a = Some r \<longrightarrow>
           finite (Masters r) \<and> finite (Replicas r) \<and> Masters r \<inter> Replicas r = {})"

definition countsOK :: "string set \<Rightarrow> nat \<Rightarrow> nat \<Rightarrow> (string \<Rightarrow> nat) \<Rightarrow> nat \<Rightarrow> nat \<Rightarrow> bool" where
  "countsOK D perServer remainder0 c remainder assigned \<longleftrightarrow>
     finite D
     \<and> (\<forall>a\<in>D. c a \<le> perServer + 1)
     \<and> (\<Sum>a\<in>D. c a - perServer) + remainder = remainder0
     \<and> (\<Sum>a\<in>D. c a) = assigned"

text \<open>
  What holds while the masters are assigned, \<open>P\<close> the shards done so far, and while the
  replicas are assigned, \<open>n\<close> the replica roles given so far and \<open>serverRoles0\<close> the
  roles when the masters were done.
\<close>

definition masterInv ::
  "string set \<Rightarrow> nat \<Rightarrow> nat \<Rightarrow> nat set \<Rightarrow> (string \<rightharpoonup> ServerRole) \<Rightarrow> (nat \<rightharpoonup> string) \<Rightarrow> nat
    \<Rightarrow> bool" where
  "masterInv D perServer remainder0 P serverRoles masters remainder \<longleftrightarrow>
     rolesOK serverRoles \<and> dom serverRoles = D \<and> finite P
     \<and> countsOK D perServer remainder0 (masterCount serverRoles) remainder (card P)
     \<and> (\<forall>a r. serverRoles a = Some r \<longrightarrow> Masters r \<subseteq> P \<and> Replicas r = {})
     \<and> (\<forall>a r s. serverRoles a = Some r \<and> s \<in> Masters r \<longrightarrow> masters s = Some a)"

definition replicaInv ::
  "string set \<Rightarrow> nat \<Rightarrow> nat \<Rightarrow> (string \<rightharpoonup> ServerRole) \<Rightarrow> (string \<rightharpoonup> ServerRole) \<Rightarrow> nat \<Rightarrow> nat
    \<Rightarrow> bool" where
  "replicaInv D perServer remainder0 serverRoles0 serverRoles remainder n \<longleftrightarrow>
     rolesOK serverRoles \<and> dom serverRoles = D
     \<and> countsOK D perServer remainder0 (replicaCount serverRoles) remainder n
     \<and> (\<forall>a. map_option Masters (serverRoles a) = map_option Masters (serverRoles0 a))"

definition isAssigned :: "passResult \<Rightarrow> bool" where
  "isAssigned result = (case result of Assigned _ _ _ _ \<Rightarrow> True | _ \<Rightarrow> False)"

definition threeServers :: "string list" where
  "threeServers = [''a'', ''b'', ''c'']"

text \<open>The first pass of a new cluster of three servers, with three shards and one replica.\<close>

definition firstPass :: passResult where
  "firstPass =
     assignRolesPass 3 1 0 {} Map.empty (\<lambda>shard. []) (plainRanges threeServers 3) None None
       (map serverNamed threeServers)"

text \<open>The same cluster with four shards.\<close>

definition fourShardPass :: passResult where
  "fourShardPass =
     assignRolesPass 4 1 0 {} Map.empty (\<lambda>shard. []) (plainRanges threeServers 4) None None
       (map serverNamed threeServers)"

section \<open>Properties of FilePut\<close>

text \<open>
  C9. A FilePut request whose file path begins with the character \<open>/\<close> returns the
  leading-slash error (the InvalidArgument case of the specification) with no response,
  and calls neither the router, the sharder nor any internal client: the trace of calls is
  empty. A request whose path does not begin with \<open>/\<close> is not rejected by this rule:
  whatever the collaborators answer, it either reaches the router or the sharder (the trace
  is not empty) or stops at the later check of a directory with a value.
\<close>

theorem FilePut_leading_slash:
  "File request = Some f \<Longrightarrow>
   (HasPrefix (Path f) ''/'' \<longrightarrow>
      FilePut env request =
        ((None, Some (Errorf (''pachyderm: leading slash in path: '' @ Path f))), []))
   \<and> (\<not> HasPrefix (Path f) ''/'' \<longrightarrow>
        (snd (FilePut env request) \<noteq> []
         \<or> FilePut env request =
             ((Some EmptyInstance,
               Some (Errorf ''FilePutRequest shouldn't have type dir and a value'')), [])))"
proof (cases "HasPrefix (Path f) ''/''")
  case True
  assume "File request = Some f"
  with True show ?thesis by (simp add: FilePut_def)
next
  case False
  assume f: "File request = Some f"
  have nonempty: "snd (filePutAll env request cs tr) \<noteq> []" if "tr \<noteq> []" for cs tr
    using that by (induction cs arbitrary: tr) (auto split: option.splits)
  show ?thesis
    using False f nonempty [of "[EvGetAllClientConns]"]
    by (auto simp: FilePut_def getClientConnForFile_def split: sum.splits prod.splits)
qed

theorem FilePut_leading_slash_witness:
  "File (exampleRequest ''/a.txt'') = Some \<lparr>FCommit = None, Path = ''/a.txt''\<rparr>
   \<and> HasPrefix ''/a.txt'' ''/''
   \<and> FilePut exampleEnv (exampleRequest ''/a.txt'') =
       ((None, Some (Errorf ''pachyderm: leading slash in path: /a.txt'')), [])"
  using FilePut_leading_slash
    [of "exampleRequest ''/a.txt''" "\<lparr>FCommit = None, Path = ''/a.txt''\<rparr>" exampleEnv]
  by (simp add: exampleRequest_def HasPrefix_def)

section \<open>The chunks PutBlock writes\<close>

lemma lineBytes_simps [simp]:
  "lineBytes [] = []" "lineBytes (t # ts) = t @ newline # lineBytes ts"
  "lineBytes (xs @ ys) = lineBytes xs @ lineBytes ys"
  by (simp_all add: lineBytes_def)

lemma lineBytes_empty [simp]: "lineBytes ts = [] \<longleftrightarrow> ts = []"
  by (cases ts) simp_all

lemma lineBytes_butlast: "length (lineBytes (butlast g)) \<le> length (lineBytes g)"
proof (cases "g = []")
  case True
  then show ?thesis by simp
next
  case False
  then have "lineBytes g = lineBytes (butlast g) @ lineBytes [last g]"
    by (metis append_butlast_last_id lineBytes_simps(3))
  then show ?thesis by simp
qed

lemma scanLoop_Nil:
  "tokens sc = [] \<Longrightarrow>
   scanLoop flt B name fs sc written = (None, fs, sc\<lparr>reported := scanErr sc\<rparr>, written)"
  by (simp add: scanLoop.simps [of flt B name fs sc written] Scan_def)

lemma scanLoop_Cons:
  "tokens sc = t # ts \<Longrightarrow>
   scanLoop flt B name fs sc written =
     (if flt (ops fs) then (Some (External ''hash.Write''), tick fs, sc\<lparr>tokens := ts\<rparr>, written)
      else if flt (Suc (ops fs))
      then (Some (External ''tmp.Write''), tick (tick fs), sc\<lparr>tokens := ts\<rparr>, written)
      else if length (written @ t @ [newline]) > B
      then (None, (tick (tick fs))\<lparr>tmp := (tmp fs)(name \<mapsto> written @ t @ [newline])\<rparr>,
            sc\<lparr>tokens := ts\<rparr>, written @ t @ [newline])
      else scanLoop flt B name
             ((tick (tick fs))\<lparr>tmp := (tmp fs)(name \<mapsto> written @ t @ [newline])\<rparr>)
             (sc\<lparr>tokens := ts\<rparr>) (written @ t @ [newline]))"
  by (simp add: scanLoop.simps [of flt B name fs sc written] Scan_def Let_def)

lemma scanLoop_record:
  "scanLoop flt B name fs \<lparr>tokens = [], scanErr = e, reported = r\<rparr> written =
     (None, fs, \<lparr>tokens = [], scanErr = e, reported = e\<rparr>, written)"
  "scanLoop flt B name fs \<lparr>tokens = t # ts, scanErr = e, reported = r\<rparr> written =
     (if flt (ops fs)
      then (Some (External ''hash.Write''), tick fs,
            \<lparr>tokens = ts, scanErr = e, reported = r\<rparr>, written)
      else if flt (Suc (ops fs))
      then (Some (External ''tmp.Write''), tick (tick fs),
            \<lparr>tokens = ts, scanErr = e, reported = r\<rparr>, written)
      else if length (written @ t @ [newline]) > B
      then (None, (tick (tick fs))\<lparr>tmp := (tmp fs)(name \<mapsto> written @ t @ [newline])\<rparr>,
            \<lparr>tokens = ts, scanErr = e, reported = r\<rparr>, written @ t @ [newline])
      else scanLoop flt B name
             ((tick (tick fs))\<lparr>tmp := (tmp fs)(name \<mapsto> written @ t @ [newline])\<rparr>)
             \<lparr>tokens = ts, scanErr = e, reported = r\<rparr> (written @ t @ [newline]))"
  by (simp_all add: scanLoop_Nil scanLoop_Cons [of _ t ts])

lemma scanLoop_None:
  "scanLoop flt B name fs sc written = (None, fs', sc', written') \<Longrightarrow> length written \<le> B \<Longrightarrow>
   \<exists>g. tokens sc = g @ tokens sc' \<and> written' = written @ lineBytes g
     \<and> length (written @ lineBytes (butlast g)) \<le> B
     \<and> (tokens sc \<noteq> [] \<longrightarrow> g \<noteq> [])
     \<and> scanErr sc' = scanErr sc
     \<and> (B < length written' \<and> reported sc' = reported sc
        \<or> length written' \<le> B \<and> tokens sc' = [] \<and> reported sc' = scanErr sc)"
proof (induction ts \<equiv> "tokens sc" arbitrary: sc fs written)
  case Nil
  from Nil.hyps have "tokens sc = []" by simp
  with Nil.prems show ?case
    by (auto simp: scanLoop_Nil [of sc])
next
  case (Cons t ts)
  let ?w = "written @ t @ [newline]"
  let ?fs1 = "(tick (tick fs))\<lparr>tmp := (tmp fs)(name \<mapsto> ?w)\<rparr>"
  let ?sc1 = "sc\<lparr>tokens := ts\<rparr>"
  note eq = scanLoop_Cons [OF Cons.hyps(2) [symmetric], of flt B name fs written]
  from Cons.prems(1) have nf: "\<not> flt (ops fs)" "\<not> flt (Suc (ops fs))"
    by (auto simp: eq split: if_splits)
  show ?case
  proof (cases "B < length ?w")
    case True
    with Cons.prems(1) nf have "sc' = ?sc1" "written' = ?w"
      by (simp_all add: eq)
    with True Cons.prems(2) Cons.hyps(2) [symmetric] show ?thesis
      by (intro exI [of _ "[t]"]) simp
  next
    case False
    with Cons.prems(1) nf have
      rec: "scanLoop flt B name ?fs1 ?sc1 ?w = (None, fs', sc', written')"
      by (simp add: eq)
    from False have le: "length ?w \<le> B" by simp
    have ts: "ts = tokens ?sc1" by simp
    from Cons.hyps(1) [OF ts rec le] obtain g where
      g: "tokens ?sc1 = g @ tokens sc'" "written' = ?w @ lineBytes g"
         "length (?w @ lineBytes (butlast g)) \<le> B"
         "scanErr sc' = scanErr ?sc1"
         "B < length written' \<and> reported sc' = reported ?sc1
          \<or> length written' \<le> B \<and> tokens sc' = [] \<and> reported sc' = scanErr ?sc1"
      by blast
    show ?thesis
    proof (cases "g = []")
      case True
      with g Cons.prems(2) Cons.hyps(2) [symmetric] show ?thesis
        by (intro exI [of _ "[t]"]) simp
    next
      case False
      with g Cons.hyps(2) [symmetric] show ?thesis
        by (intro exI [of _ "t # g"]) simp
    qed
  qed
qed

lemma deferred_result:
  "deferred flt name result retErr fs = ((r, e), fs') \<Longrightarrow> r = result \<and> (e = None \<longrightarrow> retErr = None)"
  by (auto simp: deferred_def Let_def split: if_splits option.splits)

lemma putOneBlock_ok:
  assumes "putOneBlock flt hashOf B fs sc = ((Some r, None), fs', sc')"
  shows "\<exists>g. tokens sc = g @ tokens sc' \<and> r = blockRefOf hashOf (lineBytes g)
     \<and> length (lineBytes (butlast g)) \<le> B
     \<and> (tokens sc \<noteq> [] \<longrightarrow> g \<noteq> [])
     \<and> scanErr sc' = scanErr sc \<and> reported sc' = None
     \<and> (length (lineBytes g) \<le> B \<longrightarrow> tokens sc' = [] \<and> scanErr sc = None)"
proof -
  let ?name = "nextTmp fs"
  let ?fs1 = "(tick fs)\<lparr>tmp := (tmp fs)(?name \<mapsto> []), nextTmp := Suc ?name,
                         opened := insert ?name (opened fs)\<rparr>"
  obtain e fs2 sc2 written where
    sl: "scanLoop flt B ?name ?fs1 sc [] = (e, fs2, sc2, written)"
    by (metis prod_cases4)
  from assms sl have e: "e = None"
    by (auto simp: putOneBlock_def Let_def split: if_splits option.splits prod.splits
             dest: deferred_result)
  from assms sl e have sc': "sc' = sc2"
    and r: "r = blockRefOf hashOf written" and rep: "reported sc2 = None"
    by (auto simp: putOneBlock_def Let_def blockRefOf_def Err_def
             split: if_splits option.splits prod.splits dest: deferred_result)
  from scanLoop_None [OF sl [unfolded e]] obtain g where
    g: "tokens sc = g @ tokens sc2" "written = lineBytes g"
    "length (lineBytes (butlast g)) \<le> B" "tokens sc \<noteq> [] \<longrightarrow> g \<noteq> []"
    "scanErr sc2 = scanErr sc"
    "B < length written \<and> reported sc2 = reported sc
        \<or> length written \<le> B \<and> tokens sc2 = [] \<and> reported sc2 = scanErr sc"
    by auto
  from g(2,6) rep have "length (lineBytes g) \<le> B \<longrightarrow> tokens sc2 = [] \<and> scanErr sc = None"
    by auto
  with sc' r rep g(1-5) show ?thesis
    by (intro exI [of _ g]) simp
qed

lemma putOneBlock_shorter:
  assumes "putOneBlock flt hashOf B fs sc = ((Some r, None), fs', sc')" "0 < Upper r"
  shows "length (tokens sc') < length (tokens sc)"
proof -
  from putOneBlock_ok [OF assms(1)] obtain g where
    g: "tokens sc = g @ tokens sc'" "r = blockRefOf hashOf (lineBytes g)"
    by blast
  with assms(2) have "g \<noteq> []" by (auto simp: blockRefOf_def)
  with g(1) show ?thesis by (cases g) simp_all
qed

lemma PutBlockLoop_total:
  "0 < B \<Longrightarrow> \<exists>res. PutBlockLoop flt hashOf B fs sc acc = Some res"
proof (induction "length (tokens sc)" arbitrary: fs sc acc rule: less_induct)
  case less
  obtain r e fs' sc' where p: "putOneBlock flt hashOf B fs sc = ((r, e), fs', sc')"
    by (metis prod_cases3 surj_pair)
  show ?case
  proof (cases "\<exists>b. r = Some b \<and> e = None \<and> \<not> Upper b - Lower b < B")
    case True
    then obtain b where b: "r = Some b" "e = None" "\<not> Upper b - Lower b < B" by blast
    with less.prems have "0 < Upper b" by simp
    with p b have "length (tokens sc') < length (tokens sc)"
      by (auto dest: putOneBlock_shorter)
    from less.hyps [OF this less.prems] obtain res where
      "PutBlockLoop flt hashOf B fs' sc' (acc @ [b]) = Some res" by blast
    with p b show ?thesis
      by (subst PutBlockLoop.simps) (cases res, simp)
  next
    case False
    with p show ?thesis
      by (subst PutBlockLoop.simps) (auto split: option.splits)
  qed
qed

lemma chunksOK_no_lines:
  "chunksOK B gs \<Longrightarrow> 0 < B \<Longrightarrow> concat gs = [] \<Longrightarrow> gs = [[]]"
proof (cases gs)
  case Nil
  assume "chunksOK B gs"
  with Nil show ?thesis by simp
next
  case (Cons g rest)
  assume ok: "chunksOK B gs" and B: "0 < B" and c: "concat gs = []"
  from c Cons have g: "g = []" by simp
  show ?thesis
  proof (cases rest)
    case Nil
    with Cons g show ?thesis by simp
  next
    case (Cons h rest')
    with ok \<open>gs = g # rest\<close> g B show ?thesis by simp
  qed
qed

lemma PutBlockLoop_groups:
  "0 < B \<Longrightarrow> PutBlockLoop flt hashOf B fs sc acc = Some (Inr refs, fs', sc') \<Longrightarrow>
   \<exists>gs. refs = acc @ map (\<lambda>g. blockRefOf hashOf (lineBytes g)) gs \<and> tokens sc = concat gs
     \<and> chunksOK B gs \<and> scanErr sc = None"
proof (induction "length (tokens sc)" arbitrary: fs sc acc rule: less_induct)
  case less
  obtain r e fs1 sc1 where p: "putOneBlock flt hashOf B fs sc = ((r, e), fs1, sc1)"
    by (metis prod_cases3 surj_pair)
  from less.prems(2) p obtain b where b: "r = Some b" "e = None"
    by (subst (asm) PutBlockLoop.simps) (auto split: option.splits)
  from putOneBlock_ok [OF p [unfolded b]] obtain g where
    g: "tokens sc = g @ tokens sc1" "b = blockRefOf hashOf (lineBytes g)"
       "length (lineBytes (butlast g)) \<le> B" "scanErr sc1 = scanErr sc"
       "length (lineBytes g) \<le> B \<longrightarrow> tokens sc1 = [] \<and> scanErr sc = None"
    by blast
  show ?case
  proof (cases "Upper b - Lower b < B")
    case True
    with less.prems(2) p b have "refs = acc @ [b]"
      by (subst (asm) PutBlockLoop.simps) simp
    moreover from True g(2,5) have "tokens sc1 = []" "scanErr sc = None"
      by (auto simp: blockRefOf_def)
    ultimately show ?thesis
      using g True by (intro exI [of _ "[g]"]) (simp add: blockRefOf_def)
  next
    case False
    with less.prems(2) p b have
      rec: "PutBlockLoop flt hashOf B fs1 sc1 (acc @ [b]) = Some (Inr refs, fs', sc')"
      by (subst (asm) PutBlockLoop.simps) simp
    from False less.prems(1) have "0 < Upper b" by simp
    with p b have "length (tokens sc1) < length (tokens sc)"
      by (auto dest: putOneBlock_shorter)
    from less.hyps [OF this less.prems(1) rec] obtain gs where
      gs: "refs = (acc @ [b]) @ map (\<lambda>g. blockRefOf hashOf (lineBytes g)) gs"
          "tokens sc1 = concat gs" "chunksOK B gs" "scanErr sc1 = None"
      by blast
    from gs(3) obtain h rest where hr: "gs = h # rest"
      by (cases gs) simp_all
    from False g(2) have big: "B \<le> length (lineBytes g)"
      by (simp add: blockRefOf_def)
    have "B < length (lineBytes g) \<or> (length (lineBytes g) = B \<and> h = [] \<and> rest = [])"
    proof (cases "B < length (lineBytes g)")
      case True
      then show ?thesis by simp
    next
      case False
      with big have eq: "length (lineBytes g) = B" by simp
      with g(5) gs(2) have "concat gs = []" by simp
      from chunksOK_no_lines [OF gs(3) less.prems(1) this] hr eq show ?thesis
        by simp
    qed
    with gs(3) g(3) hr have "chunksOK B (g # gs)"
      by simp
    moreover from gs(4) g(4) have "scanErr sc = None"
      by simp
    ultimately show ?thesis
      using gs(1,2) g(1,2) by (intro exI [of _ "g # gs"]) simp
  qed
qed

lemma chunksOK_last:
  "chunksOK B gs \<Longrightarrow> gs \<noteq> [] \<and> length (lineBytes (last gs)) < B"
  by (induction B gs rule: chunksOK.induct) simp_all

lemma dataChunks_tail:
  "dataChunks B (g # ds) \<Longrightarrow> dataChunks B ds"
  by (auto simp: dataChunks_def split: if_splits dest: in_set_butlastD)

lemma dataChunks_prefix:
  assumes "dataChunks B (g # ds)" "dataChunks B (h # hs)"
    "g = h @ us" "us @ concat ds = concat hs"
  shows "us = []"
proof (rule ccontr)
  assume us: "us \<noteq> []"
  with assms(4) have "hs \<noteq> []" by auto
  with assms(2) have "B < length (lineBytes h)"
    by (simp add: dataChunks_def)
  moreover from us assms(3) have "butlast g = h @ butlast us"
    by (simp add: butlast_append)
  then have "length (lineBytes h) \<le> length (lineBytes (butlast g))"
    by simp
  moreover from assms(1) have "length (lineBytes (butlast g)) \<le> B"
    by (simp add: dataChunks_def)
  ultimately show False by simp
qed

lemma dataChunks_unique:
  "dataChunks B ds \<Longrightarrow> dataChunks B ds' \<Longrightarrow> concat ds = concat ds' \<Longrightarrow> ds = ds'"
proof (induction ds arbitrary: ds')
  case Nil
  show ?case
  proof (cases ds')
    case Nil
    then show ?thesis by simp
  next
    case (Cons h hs)
    with Nil.prems show ?thesis by (simp add: dataChunks_def)
  qed
next
  case (Cons g ds)
  show ?case
  proof (cases ds')
    case Nil
    with Cons.prems show ?thesis by (simp add: dataChunks_def)
  next
    case (Cons h hs)
    with Cons.prems(3) have "g @ concat ds = h @ concat hs" by simp
    then obtain us where
      "g = h @ us \<and> us @ concat ds = concat hs \<or> g @ us = h \<and> concat ds = us @ concat hs"
      by (auto simp: append_eq_append_conv2)
    then have "g = h \<and> concat ds = concat hs"
    proof
      assume a: "g = h @ us \<and> us @ concat ds = concat hs"
      with dataChunks_prefix [OF Cons.prems(1) Cons.prems(2) [unfolded Cons], of us]
      show ?thesis by simp
    next
      assume a: "g @ us = h \<and> concat ds = us @ concat hs"
      with dataChunks_prefix [OF Cons.prems(2) [unfolded Cons] Cons.prems(1), of us]
      show ?thesis by simp
    qed
    moreover from Cons.prems(1) have "dataChunks B ds"
      by (rule dataChunks_tail)
    moreover from Cons.prems(2) Cons have "dataChunks B hs"
      by (auto dest: dataChunks_tail)
    ultimately show ?thesis
      using Cons.IH [of hs] Cons by simp
  qed
qed

lemma chunksOK_data:
  "chunksOK B gs \<Longrightarrow> 0 < B \<Longrightarrow>
   \<exists>ds. dataChunks B ds
     \<and> gs = ds @ (if ds = [] \<or> B \<le> length (lineBytes (last ds)) then [[]] else [])"
proof (induction B gs rule: chunksOK.induct)
  case (1 B)
  then show ?case by simp
next
  case (2 B g)
  show ?case
  proof (cases "g = []")
    case True
    then show ?thesis
      by (intro exI [of _ "[]"]) (simp add: dataChunks_def)
  next
    case False
    with 2 lineBytes_butlast [of g] show ?thesis
      by (intro exI [of _ "[g]"]) (simp add: dataChunks_def)
  qed
next
  case (3 B g h gs)
  from "3.prems" have ok: "chunksOK B (h # gs)"
    and small: "length (lineBytes (butlast g)) \<le> B"
    and close: "B < length (lineBytes g) \<or> (length (lineBytes g) = B \<and> h = [] \<and> gs = [])"
    by simp_all
  from "3.prems"(2) close have gne: "g \<noteq> []" by auto
  from "3.IH" [OF ok "3.prems"(2)] obtain ds where
    ds: "dataChunks B ds"
        "h # gs = ds @ (if ds = [] \<or> B \<le> length (lineBytes (last ds)) then [[]] else [])"
    by blast
  from close show ?case
  proof
    assume big: "B < length (lineBytes g)"
    with ds(1) small gne have "dataChunks B (g # ds)"
      by (auto simp: dataChunks_def dest: in_set_butlastD)
    moreover from ds(2) big have
      "g # h # gs = (g # ds) @
         (if g # ds = [] \<or> B \<le> length (lineBytes (last (g # ds))) then [[]] else [])"
      by (cases "ds = []") simp_all
    ultimately show ?thesis by blast
  next
    assume eq: "length (lineBytes g) = B \<and> h = [] \<and> gs = []"
    with small gne have "dataChunks B [g]"
      by (simp add: dataChunks_def)
    moreover from eq have
      "g # h # gs = [g] @ (if [g] = [] \<or> B \<le> length (lineBytes (last [g])) then [[]] else [])"
      by simp
    ultimately show ?thesis by blast
  qed
qed

lemma chunksOK_unique:
  assumes "0 < B" "chunksOK B gs" "chunksOK B gs'" "concat gs = concat gs'"
  shows "gs = gs'"
proof -
  from chunksOK_data [OF assms(2,1)] obtain ds where
    ds: "dataChunks B ds"
        "gs = ds @ (if ds = [] \<or> B \<le> length (lineBytes (last ds)) then [[]] else [])"
    by blast
  from chunksOK_data [OF assms(3,1)] obtain ds' where
    ds': "dataChunks B ds'"
         "gs' = ds' @ (if ds' = [] \<or> B \<le> length (lineBytes (last ds')) then [[]] else [])"
    by blast
  from ds(2) have "concat gs = concat ds" by (simp split: if_splits)
  moreover from ds'(2) have "concat gs' = concat ds'" by (simp split: if_splits)
  ultimately have "concat ds = concat ds'" using assms(4) by simp
  from dataChunks_unique [OF ds(1) ds'(1) this] ds(2) ds'(2) show ?thesis
    by simp
qed

lemma scanLoop_noFault:
  "\<forall>n. \<not> flt n \<Longrightarrow> scanErr sc = None \<Longrightarrow> reported sc = None \<Longrightarrow>
   \<exists>fs' sc' w'. scanLoop flt B name fs sc w = (None, fs', sc', w') \<and> reported sc' = None"
proof (induction ts \<equiv> "tokens sc" arbitrary: sc fs w)
  case Nil
  from Nil.hyps have "tokens sc = []" by simp
  with Nil.prems show ?case
    by (simp add: scanLoop_Nil [of sc])
next
  case (Cons t ts)
  let ?w = "w @ t @ [newline]"
  let ?fs1 = "(tick (tick fs))\<lparr>tmp := (tmp fs)(name \<mapsto> ?w)\<rparr>"
  let ?sc1 = "sc\<lparr>tokens := ts\<rparr>"
  note eq = scanLoop_Cons [OF Cons.hyps(2) [symmetric], of flt B name fs w]
  show ?case
  proof (cases "B < length ?w")
    case True
    with Cons.prems show ?thesis
      by (simp add: eq)
  next
    case False
    have "ts = tokens ?sc1" by simp
    from Cons.hyps(1) [OF this Cons.prems(1), of ?fs1 ?w] Cons.prems(2,3) obtain fs' sc' w' where
      "scanLoop flt B name ?fs1 ?sc1 ?w = (None, fs', sc', w')" "reported sc' = None"
      by auto
    with False Cons.prems(1) show ?thesis
      by (simp add: eq)
  qed
qed

lemma deferred_noFault:
  "\<forall>n. \<not> flt n \<Longrightarrow> \<exists>fs'. deferred flt name result retErr fs = ((result, retErr), fs')"
  by (simp add: deferred_def Let_def split: option.splits)

lemma putOneBlock_noFault:
  assumes "\<forall>n. \<not> flt n" "scanErr sc = None" "reported sc = None"
  shows "\<exists>r fs' sc'. putOneBlock flt hashOf B fs sc = ((Some r, None), fs', sc')"
proof -
  let ?name = "nextTmp fs"
  let ?fs1 = "(tick fs)\<lparr>tmp := (tmp fs)(?name \<mapsto> []), nextTmp := Suc ?name,
                         opened := insert ?name (opened fs)\<rparr>"
  from scanLoop_noFault [OF assms, of B ?name ?fs1 "[]"] obtain fs2 sc2 w where
    sl: "scanLoop flt B ?name ?fs1 sc [] = (None, fs2, sc2, w)" "reported sc2 = None"
    by blast
  from deferred_noFault [OF assms(1), of ?name
      "Some \<lparr>Block = hashOf w, Lower = 0, Upper = length w\<rparr>" None fs2]
  obtain fs3 where
    "deferred flt ?name (Some \<lparr>Block = hashOf w, Lower = 0, Upper = length w\<rparr>) None fs2 =
       ((Some \<lparr>Block = hashOf w, Lower = 0, Upper = length w\<rparr>, None), fs3)"
    by blast
  with sl assms(1) show ?thesis
    by (simp add: putOneBlock_def Let_def Err_def)
qed

lemma PutBlockLoop_success:
  "0 < B \<Longrightarrow> \<forall>n. \<not> flt n \<Longrightarrow> scanErr sc = None \<Longrightarrow> reported sc = None \<Longrightarrow>
   \<exists>refs fs' sc'. PutBlockLoop flt hashOf B fs sc acc = Some (Inr refs, fs', sc')"
proof (induction "length (tokens sc)" arbitrary: fs sc acc rule: less_induct)
  case less
  from putOneBlock_noFault [OF less.prems(2-4), of hashOf B fs] obtain b fs1 sc1 where
    p: "putOneBlock flt hashOf B fs sc = ((Some b, None), fs1, sc1)"
    by blast
  from putOneBlock_ok [OF p] have sc1: "scanErr sc1 = None" "reported sc1 = None"
    using less.prems(3) by auto
  show ?case
  proof (cases "Upper b - Lower b < B")
    case True
    with p show ?thesis
      by (subst PutBlockLoop.simps) simp
  next
    case False
    with less.prems(1) have "0 < Upper b" by simp
    from putOneBlock_shorter [OF p this] have "length (tokens sc1) < length (tokens sc)" .
    from less.hyps [OF this less.prems(1,2) sc1, of fs1 "acc @ [b]"] obtain refs fs' sc' where
      "PutBlockLoop flt hashOf B fs1 sc1 (acc @ [b]) = Some (Inr refs, fs', sc')"
      by blast
    with p False show ?thesis
      by (subst PutBlockLoop.simps) simp
  qed
qed

lemma rawLines_bytes:
  "lineBytes (rawLines cs cur) =
     (if cur @ cs = [] \<or> (cs \<noteq> [] \<and> last cs = newline) then cur @ cs else cur @ cs @ [newline])"
proof (induction cs arbitrary: cur)
  case Nil
  show ?case by simp
next
  case (Cons c cs)
  show ?case
  proof (cases "c = newline")
    case True
    then show ?thesis using Cons.IH [of "[]"] by auto
  next
    case False
    then show ?thesis using Cons.IH [of "cur @ [c]"] by auto
  qed
qed

lemma NewScanner_tokens:
  "scanErr (NewScanner input) = None \<Longrightarrow> tokens (NewScanner input) = map dropCR (rawLines input [])"
proof -
  let ?ls = "rawLines input []"
  let ?ok = "takeWhile (\<lambda>l. length l < MaxScanTokenSize) ?ls"
  assume "scanErr (NewScanner input) = None"
  then have "\<not> length ?ok < length ?ls"
    by (simp add: NewScanner_def Let_def split: if_splits)
  moreover have "length ?ok \<le> length ?ls"
    by (rule length_takeWhile_le)
  ultimately have "length ?ok = length ?ls" by simp
  moreover have "?ok = take (length ?ok) ?ls"
    by (metis append_eq_conv_conj takeWhile_dropWhile_id)
  ultimately have "?ok = ?ls" by simp
  then show ?thesis
    by (simp add: NewScanner_def Let_def del: takeWhile_eq_all_conv)
qed

lemma PutBlock_chunksOK:
  assumes "0 < B" "PutBlock flt hashOf B fs input = Some (Inr refs, fs', sc')"
  shows "\<exists>gs. refs = map (\<lambda>g. blockRefOf hashOf (lineBytes g)) gs
     \<and> concat gs = map dropCR (rawLines input []) \<and> chunksOK B gs"
proof -
  from PutBlockLoop_groups [OF assms(1) assms(2) [unfolded PutBlock_def]] obtain gs where
    gs: "refs = [] @ map (\<lambda>g. blockRefOf hashOf (lineBytes g)) gs"
        "tokens (NewScanner input) = concat gs"
        "chunksOK B gs" "scanErr (NewScanner input) = None"
    by blast
  from NewScanner_tokens [OF gs(4)] gs(2) have "concat gs = map dropCR (rawLines input [])"
    by simp
  with gs(1,3) show ?thesis by auto
qed

lemmas block_eval =
  PutBlock_def PutBlockLoop.simps putOneBlock_def deferred_def Close_def scanLoop_record
  NewScanner_def Err_def tick_def newline_def dropCR_def MaxScanTokenSize_def Let_def

text \<open>
  C4 (as amended). When PutBlock returns its list of references (\<open>blockSize\<close> positive),
  the input was cut at newlines into lines, each line less its newline and less one
  carriage return before it, and the lines were dealt in order into runs \<open>gs\<close>, one block
  per run: a block holds the lines of its run, each followed by one newline, and its
  reference has the hash of these bytes and the range from 0 to their number. A block
  takes lines until it holds more than \<open>blockSize\<close> bytes or the lines run out
  (\<open>chunksOK\<close>), so it may exceed \<open>blockSize\<close> by up to one line; the list ends with the
  first block shorter than \<open>blockSize\<close>. The runs are the only ones that deal the lines
  of the input this way.
\<close>

theorem PutBlock_chunks:
  assumes "0 < B" "PutBlock flt hashOf B fs input = Some (Inr refs, fs', sc')"
  shows "\<exists>gs. refs = map (\<lambda>g. blockRefOf hashOf (lineBytes g)) gs
     \<and> concat gs = map dropCR (rawLines input [])
     \<and> chunksOK B gs
     \<and> (\<forall>gs'. concat gs' = map dropCR (rawLines input []) \<and> chunksOK B gs' \<longrightarrow> gs' = gs)"
proof -
  from PutBlock_chunksOK [OF assms] obtain gs where
    gs: "refs = map (\<lambda>g. blockRefOf hashOf (lineBytes g)) gs"
        "concat gs = map dropCR (rawLines input [])" "chunksOK B gs"
    by blast
  have "gs' = gs" if "concat gs' = map dropCR (rawLines input [])" "chunksOK B gs'" for gs'
    using chunksOK_unique [OF assms(1) that(2) gs(3)] that(1) gs(2) by simp
  with gs show ?thesis by blast
qed

theorem PutBlock_chunks_witness:
  "(0::nat) < 6
   \<and> map_option fst (PutBlock noFault plainHash 6 emptyFS helloWorld) = Some (Inr helloWorldRefs)
   \<and> (\<exists>gs. helloWorldRefs = map (\<lambda>g. blockRefOf plainHash (lineBytes g)) gs
        \<and> concat gs = map dropCR (rawLines helloWorld [])
        \<and> chunksOK 6 gs
        \<and> (\<forall>gs'. concat gs' = map dropCR (rawLines helloWorld []) \<and> chunksOK 6 gs'
              \<longrightarrow> gs' = gs))
   \<and> helloWorldRefs = map (\<lambda>g. blockRefOf plainHash (lineBytes g)) [[''hello'', ''world''], []]
   \<and> concat [[''hello'', ''world''], []] = map dropCR (rawLines helloWorld [])
   \<and> chunksOK 6 [[''hello'', ''world''], []]"
proof -
  have run: "map_option fst (PutBlock noFault plainHash 6 emptyFS helloWorld) =
      Some (Inr helloWorldRefs)"
    by (simp add: block_eval emptyFS_def noFault_def plainHash_def helloWorld_def
        helloWorldRefs_def)
  then obtain fs' sc' where
    "PutBlock noFault plainHash 6 emptyFS helloWorld = Some (Inr helloWorldRefs, fs', sc')"
    by auto
  from PutBlock_chunks [OF _ this] have ex:
    "\<exists>gs. helloWorldRefs = map (\<lambda>g. blockRefOf plainHash (lineBytes g)) gs
        \<and> concat gs = map dropCR (rawLines helloWorld [])
        \<and> chunksOK 6 gs
        \<and> (\<forall>gs'. concat gs' = map dropCR (rawLines helloWorld []) \<and> chunksOK 6 gs'
              \<longrightarrow> gs' = gs)"
    by simp
  have pos: "(0::nat) < 6" by simp
  have runs:
    "helloWorldRefs = map (\<lambda>g. blockRefOf plainHash (lineBytes g)) [[''hello'', ''world''], []]"
    "concat [[''hello'', ''world''], []] = map dropCR (rawLines helloWorld [])"
    "chunksOK 6 [[''hello'', ''world''], []]"
    by (simp_all add: helloWorldRefs_def blockRefOf_def plainHash_def helloWorld_def
        newline_def dropCR_def)
  from pos run ex runs show ?thesis
    by blast
qed

text \<open>
  C4, as stated, fails: the lines of \<open>abc\<close> take 2 bytes each, newline included, and
  with \<open>blockSize = 3\<close> the first block holds two of them, 4 bytes. The line that
  passes \<open>blockSize\<close> is in that block with its newline.
\<close>

theorem PutBlock_block_exceeds_blockSize:
  "map_option fst (PutBlock noFault plainHash 3 emptyFS abc) =
     Some (Inr [\<lparr>Block = ''a'' @ [newline] @ ''b'' @ [newline], Lower = 0, Upper = 4\<rparr>,
                \<lparr>Block = ''c'' @ [newline], Lower = 0, Upper = 2\<rparr>])
   \<and> rawLines abc [] = [''a'', ''b'', ''c'']
   \<and> \<not> (4::nat) \<le> 3"
  by (simp add: block_eval emptyFS_def noFault_def plainHash_def abc_def)

section \<open>The last block of PutBlock\<close>

lemma dataChunks_no_lines:
  "dataChunks B ds \<Longrightarrow> concat ds = [] \<Longrightarrow> ds = []"
  by (cases ds) (simp_all add: dataChunks_def)

lemma PutBlock_data:
  assumes "0 < B" "PutBlock flt hashOf B fs input = Some (Inr refs, fs', sc')"
  shows "\<exists>ds. concat ds = map dropCR (rawLines input []) \<and> dataChunks B ds
     \<and> refs = map (\<lambda>g. blockRefOf hashOf (lineBytes g)) ds
              @ (if ds = [] \<or> B \<le> length (lineBytes (last ds))
                 then [blockRefOf hashOf []] else [])"
proof -
  from PutBlock_chunksOK [OF assms] obtain gs where
    gs: "refs = map (\<lambda>g. blockRefOf hashOf (lineBytes g)) gs"
        "concat gs = map dropCR (rawLines input [])" "chunksOK B gs"
    by blast
  from chunksOK_data [OF gs(3) assms(1)] obtain ds where
    ds: "dataChunks B ds"
        "gs = ds @ (if ds = [] \<or> B \<le> length (lineBytes (last ds)) then [[]] else [])"
    by blast
  from ds(2) have "concat gs = concat ds" by (simp split: if_splits)
  with gs(2) have "concat ds = map dropCR (rawLines input [])" by simp
  moreover from gs(1) ds(2) have
    "refs = map (\<lambda>g. blockRefOf hashOf (lineBytes g)) ds
              @ (if ds = [] \<or> B \<le> length (lineBytes (last ds))
                 then [blockRefOf hashOf []] else [])"
    by (simp split: if_splits)
  ultimately show ?thesis
    using ds(1) by blast
qed

lemma PutBlock_last:
  assumes "0 < B" "PutBlock flt hashOf B fs input = Some (Inr refs, fs', sc')"
  shows "refs \<noteq> [] \<and> Upper (last refs) - Lower (last refs) < B"
proof -
  from PutBlock_chunksOK [OF assms] obtain gs where
    gs: "refs = map (\<lambda>g. blockRefOf hashOf (lineBytes g)) gs" "chunksOK B gs"
    by blast
  from chunksOK_last [OF gs(2)] gs(1) show ?thesis
    by (simp add: last_map blockRefOf_def)
qed

lemma PutBlock_one_chunk:
  assumes "0 < B" "PutBlock flt hashOf B fs input = Some (Inr refs, fs', sc')"
    "length (lineBytes (butlast (map dropCR (rawLines input [])))) \<le> B"
  shows "refs =
     (if length (lineBytes (map dropCR (rawLines input []))) < B
      then [blockRefOf hashOf (lineBytes (map dropCR (rawLines input [])))]
      else [blockRefOf hashOf (lineBytes (map dropCR (rawLines input []))),
            blockRefOf hashOf []])"
proof -
  let ?ls = "map dropCR (rawLines input [])"
  from PutBlock_data [OF assms(1,2)] obtain ds where
    ds: "concat ds = ?ls" "dataChunks B ds"
        "refs = map (\<lambda>g. blockRefOf hashOf (lineBytes g)) ds
              @ (if ds = [] \<or> B \<le> length (lineBytes (last ds))
                 then [blockRefOf hashOf []] else [])"
    by blast
  show ?thesis
  proof (cases "?ls = []")
    case True
    with ds(1,2) have "ds = []"
      by (auto dest: dataChunks_no_lines)
    with ds(3) True assms(1) show ?thesis by simp
  next
    case False
    with assms(3) have "dataChunks B [?ls]"
      by (simp add: dataChunks_def)
    from dataChunks_unique [OF ds(2) this] ds(1) have "ds = [?ls]"
      by simp
    with ds(3) show ?thesis by auto
  qed
qed

text \<open>
  C10. With a positive \<open>blockSize\<close> PutBlock always returns, and it returns a list of
  references when no operation fails and no line is too long for the scanner. The list is
  not empty and ends with a reference shorter than \<open>blockSize\<close>. It is made of the
  input: the lines of the input are dealt in order into runs \<open>ds\<close> that hold data, in
  the one way that \<open>dataChunks\<close> allows, and the list has one reference for each run,
  followed by one more reference, of range 0 to 0 and named by the hash of the empty
  input, exactly when there is no run or the last run holds \<open>blockSize\<close> bytes or
  more. So an input whose lines stay within \<open>blockSize\<close> without the last one gives one
  reference when it is shorter than \<open>blockSize\<close>, and otherwise one reference followed
  by the empty one; an empty input gives exactly the empty reference.
\<close>

theorem PutBlock_terminal_block:
  assumes "0 < B"
  shows "\<exists>res fs' sc'. PutBlock flt hashOf B fs input = Some (res, fs', sc')
     \<and> ((\<forall>n. \<not> flt n) \<and> scanErr (NewScanner input) = None \<longrightarrow> (\<exists>refs. res = Inr refs))
     \<and> (\<forall>refs. res = Inr refs \<longrightarrow>
          refs \<noteq> [] \<and> Upper (last refs) - Lower (last refs) < B
          \<and> (\<exists>ds. concat ds = map dropCR (rawLines input []) \<and> dataChunks B ds
                \<and> (\<forall>ds'. concat ds' = map dropCR (rawLines input []) \<and> dataChunks B ds'
                      \<longrightarrow> ds' = ds)
                \<and> refs = map (\<lambda>g. blockRefOf hashOf (lineBytes g)) ds
                         @ (if ds = [] \<or> B \<le> length (lineBytes (last ds))
                            then [blockRefOf hashOf []] else []))
          \<and> (length (lineBytes (butlast (map dropCR (rawLines input [])))) \<le> B \<longrightarrow>
               refs =
                 (if length (lineBytes (map dropCR (rawLines input []))) < B
                  then [blockRefOf hashOf (lineBytes (map dropCR (rawLines input [])))]
                  else [blockRefOf hashOf (lineBytes (map dropCR (rawLines input []))),
                        blockRefOf hashOf []])))
     \<and> (input = [] \<and> (\<forall>n. \<not> flt n) \<longrightarrow> res = Inr [blockRefOf hashOf []])"
proof -
  let ?ls = "map dropCR (rawLines input [])"
  from PutBlockLoop_total [OF assms] obtain res fs' sc' where
    run: "PutBlock flt hashOf B fs input = Some (res, fs', sc')"
    unfolding PutBlock_def by (metis prod_cases3)
  have ok: "\<exists>refs. res = Inr refs" if "\<forall>n. \<not> flt n" "scanErr (NewScanner input) = None"
  proof -
    have "reported (NewScanner input) = None"
      by (simp add: NewScanner_def Let_def)
    from PutBlockLoop_success [OF assms that this, of hashOf fs "[]"] run show ?thesis
      by (auto simp: PutBlock_def)
  qed
  have chunks: "refs \<noteq> [] \<and> Upper (last refs) - Lower (last refs) < B
          \<and> (\<exists>ds. concat ds = ?ls \<and> dataChunks B ds
                \<and> (\<forall>ds'. concat ds' = ?ls \<and> dataChunks B ds' \<longrightarrow> ds' = ds)
                \<and> refs = map (\<lambda>g. blockRefOf hashOf (lineBytes g)) ds
                         @ (if ds = [] \<or> B \<le> length (lineBytes (last ds))
                            then [blockRefOf hashOf []] else []))
          \<and> (length (lineBytes (butlast ?ls)) \<le> B \<longrightarrow>
               refs =
                 (if length (lineBytes ?ls) < B
                  then [blockRefOf hashOf (lineBytes ?ls)]
                  else [blockRefOf hashOf (lineBytes ?ls), blockRefOf hashOf []]))"
    if "res = Inr refs" for refs
  proof -
    from run that have r: "PutBlock flt hashOf B fs input = Some (Inr refs, fs', sc')"
      by simp
    from PutBlock_data [OF assms r] obtain ds where
      ds: "concat ds = ?ls" "dataChunks B ds"
          "refs = map (\<lambda>g. blockRefOf hashOf (lineBytes g)) ds
              @ (if ds = [] \<or> B \<le> length (lineBytes (last ds))
                 then [blockRefOf hashOf []] else [])"
      by blast
    have "ds' = ds" if "concat ds' = ?ls" "dataChunks B ds'" for ds'
      using dataChunks_unique [OF that(2) ds(2)] that(1) ds(1) by simp
    with ds have "\<exists>ds. concat ds = ?ls \<and> dataChunks B ds
                \<and> (\<forall>ds'. concat ds' = ?ls \<and> dataChunks B ds' \<longrightarrow> ds' = ds)
                \<and> refs = map (\<lambda>g. blockRefOf hashOf (lineBytes g)) ds
                         @ (if ds = [] \<or> B \<le> length (lineBytes (last ds))
                            then [blockRefOf hashOf []] else [])"
      by blast
    with PutBlock_last [OF assms r] PutBlock_one_chunk [OF assms r] show ?thesis
      by blast
  qed
  have emp: "res = Inr [blockRefOf hashOf []]" if "input = []" "\<forall>n. \<not> flt n"
  proof -
    from that have "scanErr (NewScanner input) = None"
      by (simp add: NewScanner_def)
    from ok [OF that(2) this] obtain refs where refs: "res = Inr refs" by blast
    from run refs have r: "PutBlock flt hashOf B fs input = Some (Inr refs, fs', sc')"
      by simp
    from PutBlock_one_chunk [OF assms r] that(1) assms refs show ?thesis
      by simp
  qed
  from ok have c2:
    "(\<forall>n. \<not> flt n) \<and> scanErr (NewScanner input) = None \<longrightarrow> (\<exists>refs. res = Inr refs)"
    by (intro impI) (elim conjE)
  from emp have c4: "input = [] \<and> (\<forall>n. \<not> flt n) \<longrightarrow> res = Inr [blockRefOf hashOf []]"
    by (intro impI) (elim conjE)
  show ?thesis
    by (rule exI [of _ res], rule exI [of _ fs'], rule exI [of _ sc'])
       (intro conjI [OF run] conjI [OF c2] conjI [OF _ c4] allI impI, rule chunks)
qed

theorem PutBlock_terminal_block_witness:
  "(0::nat) < 12
   \<and> (\<forall>n. \<not> noFault n) \<and> scanErr (NewScanner helloWorld) = None
   \<and> map dropCR (rawLines helloWorld []) = [''hello'', ''world'']
   \<and> length (lineBytes [''hello'']) \<le> 12 \<and> \<not> length (lineBytes [''hello'', ''world'']) < 12
   \<and> map_option fst (PutBlock noFault plainHash 12 emptyFS helloWorld) =
       Some (Inr [blockRefOf plainHash helloWorld, blockRefOf plainHash []])
   \<and> Upper (blockRefOf plainHash []) - Lower (blockRefOf plainHash []) < 12
   \<and> map_option fst (PutBlock noFault plainHash 12 emptyFS []) =
       Some (Inr [blockRefOf plainHash []])"
proof -
  have nf: "\<forall>n. \<not> noFault n"
    by (simp add: noFault_def)
  have ne: "scanErr (NewScanner helloWorld) = None"
    by (simp add: NewScanner_def helloWorld_def newline_def MaxScanTokenSize_def)
  have ls: "map dropCR (rawLines helloWorld []) = [''hello'', ''world'']"
    by (simp add: helloWorld_def newline_def dropCR_def)
  have sz: "length (lineBytes [''hello'']) \<le> 12" "\<not> length (lineBytes [''hello'', ''world'']) < 12"
    "lineBytes [''hello'', ''world''] = helloWorld"
    by (simp_all add: helloWorld_def)
  from PutBlock_terminal_block [of 12 noFault plainHash emptyFS helloWorld] nf ne
  obtain refs fs' sc' where
    run: "PutBlock noFault plainHash 12 emptyFS helloWorld = Some (Inr refs, fs', sc')"
    and one: "length (lineBytes (butlast (map dropCR (rawLines helloWorld [])))) \<le> 12 \<longrightarrow>
       refs =
         (if length (lineBytes (map dropCR (rawLines helloWorld []))) < 12
          then [blockRefOf plainHash (lineBytes (map dropCR (rawLines helloWorld [])))]
          else [blockRefOf plainHash (lineBytes (map dropCR (rawLines helloWorld []))),
                blockRefOf plainHash []])"
    by auto
  from one sz have "refs = [blockRefOf plainHash helloWorld, blockRefOf plainHash []]"
    by (simp add: ls)
  with run have hw: "map_option fst (PutBlock noFault plainHash 12 emptyFS helloWorld) =
       Some (Inr [blockRefOf plainHash helloWorld, blockRefOf plainHash []])"
    by simp
  from PutBlock_terminal_block [of 12 noFault plainHash emptyFS "[]"] nf
  have em: "map_option fst (PutBlock noFault plainHash 12 emptyFS []) =
      Some (Inr [blockRefOf plainHash []])"
    by auto
  have "Upper (blockRefOf plainHash []) - Lower (blockRefOf plainHash []) < 12"
    by (simp add: blockRefOf_def)
  with nf ne ls sz(1,2) hw em show ?thesis
    by simp
qed

section \<open>The temporary file of a failed PutBlock\<close>














section \<open>Properties of the diff store\<close>

lemma map_of_setEntry: "map_of (setEntry t p e) q = (if q = p then Some e else map_of t q)"
  by (induction t) auto

lemma WriteFile_content:
  "WriteFile fault t p data = (err, t') \<Longrightarrow>
   (err = None \<longrightarrow> ReadFile t' p = Inr data)
   \<and> (err = Some (External ''write'') \<longrightarrow>
        (\<exists>n. fault = WriteFailsAfter n \<and> ReadFile t' p = Inr (take n data)))"
  by (auto simp: WriteFile_def ReadFile_def map_of_setEntry split: if_splits writeFault.splits)

text \<open>
  C6 (as amended). CreateDiff writes the marshalled record straight to the path of its
  key, \<open>diff/{repo}/{commitID}/{shard}\<close> under the root: there is no temporary file and
  no rename. When the call returns without error, the path holds exactly the marshalled
  record. When the write itself fails, the path holds the bytes of the new record written
  before the failure, whatever it held before.
\<close>

theorem CreateDiff_writes_in_place:
  assumes "marshal request = Inr data" "diffPath dir (Diff request) = Inr p"
    "CreateDiff marshal mkdirFails fault dir t request = ((resp, err), t')"
  shows "(err = None \<longrightarrow> resp = Some EmptyInstance \<and> ReadFile t' p = Inr data)
     \<and> (err = Some (External ''write'') \<longrightarrow>
          (\<exists>n. fault = WriteFailsAfter n \<and> ReadFile t' p = Inr (take n data)))"
proof (cases "mkdirFails")
  case True
  with assms show ?thesis by (auto simp: CreateDiff_def)
next
  case False
  show ?thesis
  proof (cases "MkdirAll t (Dir p)")
    case (Inl e)
    have "e = External ''mkdir: not a directory''" if "mkdirs t0 ds = Inl e" for t0 ds
      using that by (induction ds arbitrary: t0) (auto split: if_splits option.splits)
    with Inl have "e \<noteq> External ''write''" by (auto simp: MkdirAll_def)
    with assms False Inl show ?thesis by (auto simp: CreateDiff_def)
  next
    case (Inr t1)
    obtain e t2 where w: "WriteFile fault t1 p data = (e, t2)" by (cases "WriteFile fault t1 p data")
    with assms False Inr have "err = e" "t' = t2" "e = None \<longrightarrow> resp = Some EmptyInstance"
      by (auto simp: CreateDiff_def split: option.splits)
    with WriteFile_content [OF w] show ?thesis by simp
  qed
qed

theorem CreateDiff_writes_in_place_witness:
  "exampleMarshal exampleDiffInfo = Inr ''r,c1,0,appends''
   \<and> diffPath ''/pfs'' (Diff exampleDiffInfo) = Inr ''/pfs/diff/r/c1/0''
   \<and> CreateDiff exampleMarshal False NoFault ''/pfs'' exampleTree exampleDiffInfo =
       ((Some EmptyInstance, None), storedTree)
   \<and> ReadFile storedTree ''/pfs/diff/r/c1/0'' = Inr ''r,c1,0,appends''"
proof -
  have m: "exampleMarshal exampleDiffInfo = Inr ''r,c1,0,appends''"
    by (simp add: exampleMarshal_def)
  have p: "diffPath ''/pfs'' (Diff exampleDiffInfo) = Inr ''/pfs/diff/r/c1/0''"
    by (simp add: diffPath_def exampleDiffInfo_def diffDir_def Join_def Clean_def Split_def
        HasPrefix_def)
  have c: "CreateDiff exampleMarshal False NoFault ''/pfs'' exampleTree exampleDiffInfo =
       ((Some EmptyInstance, None), storedTree)"
    by (simp add: CreateDiff_def m p MkdirAll_def Dir_def Clean_def Split_def HasPrefix_def
        WriteFile_def isDir_def exampleTree_def storedTree_def)
  from CreateDiff_writes_in_place [OF m p c] m p c show ?thesis
    by simp
qed

text \<open>
  C6, as stated, fails: a write that fails after 3 bytes leaves these 3 bytes at the path,
  where the previous record was.
\<close>

theorem CreateDiff_failed_write_truncates:
  "ReadFile storedTree ''/pfs/diff/r/c1/0'' = Inr ''r,c1,0,appends''
   \<and> CreateDiff exampleMarshal False (WriteFailsAfter 3) ''/pfs'' storedTree
        (exampleDiffInfo\<lparr>Rest := ''more''\<rparr>) =
       ((None, Some (External ''write'')),
        [(''/pfs'', DirE), (''/pfs/diff'', DirE), (''/pfs/diff/r'', DirE),
         (''/pfs/diff/r/c1'', DirE), (''/pfs/diff/r/c1/0'', FileE ''mor'')])
   \<and> ''mor'' \<noteq> ''r,c1,0,appends''"
  by (simp add: CreateDiff_def exampleMarshal_def exampleDiffInfo_def diffPath_def diffDir_def
      Join_def Clean_def Split_def HasPrefix_def MkdirAll_def Dir_def WriteFile_def isDir_def
      ReadFile_def storedTree_def)

text \<open>
  C7 at a failing input. The store holds the record that CreateDiff wrote for repo
  \<open>r\<close>, commit \<open>c1\<close>, shard 0, and \<open>readDiff\<close> finds it under its key; but
  \<open>pathToDiff\<close> cuts the walked path \<open>/r/c1/0\<close> into an empty first element, \<open>r\<close>,
  \<open>c1\<close> and \<open>0\<close>, reads the commit id as the shard and gives up, so ListDiff for
  shard 0 sends nothing.
\<close>

theorem ListDiff_misses_stored_diff:
  "CreateDiff exampleMarshal False NoFault ''/pfs'' exampleTree exampleDiffInfo =
       ((Some EmptyInstance, None), storedTree)
   \<and> readDiff exampleUnmarshal ''/pfs'' storedTree (Diff exampleDiffInfo) = Inr exampleDiffInfo
   \<and> pathToDiff ''/pfs'' ''/pfs/diff/r/c1/0'' = None
   \<and> ListDiff exampleUnmarshal ''/pfs'' storedTree 0 = ([], None)"
  by (simp add: CreateDiff_def exampleMarshal_def exampleUnmarshal_def exampleDiffInfo_def
      diffPath_def diffDir_def readDiff_def pathToDiff_def ListDiff_def Walk_def TrimPrefix_def
      ParseUint_def digitVal_def
      Join_def Clean_def Split_def HasPrefix_def MkdirAll_def Dir_def WriteFile_def isDir_def
      ReadFile_def storedTree_def exampleTree_def Let_def)

section \<open>Properties of Master\<close>

text \<open>
  C8 at a failing input. The commit the node holds and the first commit of the replica are
  equal field by field, so the local sequence is a prefix of the replica's and the claim
  has commit \<open>c2\<close> pulled. \<open>Master\<close> compares the structs with their addresses,
  returns "divergent data" and pulls nothing.
\<close>

theorem Master_divergent_on_equal_fields:
  "fieldByFieldEqual exampleStore (commitAt 2) (commitAt 1)
   \<and> Master exampleMasterEnv 0 =
       (Some (Errorf ''divergent data''), [EvRepoCreate (Some \<lparr>Name = ''r''\<rparr>) 0])"
  by (simp add: fieldByFieldEqual_def exampleStore_def commitAt_def Master_def
      exampleMasterEnv_def)

section \<open>Properties of fillRoles\<close>

lemma keptVersions_length: "length (keptVersions vs) \<le> 2"
  by (simp add: keptVersions_def Let_def)

lemma keptVersions_subset: "set (keptVersions vs) \<subseteq> set vs"
  using set_take_subset [of 2 "sort vs"] by (auto simp: keptVersions_def Let_def)

lemma keptVersions_lowest:
  assumes "v \<in> set (keptVersions vs)" "u \<in> set vs" "u \<notin> set (keptVersions vs)"
  shows "v \<le> u"
proof -
  let ?s = "sort vs"
  from assms(2,3) have long: "length ?s > 2" and kept: "keptVersions vs = take 2 ?s"
    by (auto simp: keptVersions_def Let_def split: if_splits)
  have "sorted (take 2 ?s @ drop 2 ?s)" by simp
  then have le: "\<forall>x\<in>set (take 2 ?s). \<forall>y\<in>set (drop 2 ?s). x \<le> y"
    by (simp only: sorted_append) blast
  have "set ?s = set (take 2 ?s) \<union> set (drop 2 ?s)"
    by (metis append_take_drop_id set_append)
  with assms(2,3) kept have "u \<in> set (drop 2 ?s)" by auto
  with le assms(1) kept show ?thesis by auto
qed

lemma map_fst_setEntry:
  "map fst (setEntry t p e) = (if p \<in> set (map fst t) then map fst t else map fst t @ [p])"
  by (induction t) force+

lemma distinct_setEntry: "distinct (map fst t) \<Longrightarrow> distinct (map fst (setEntry t p e))"
  by (simp add: map_fst_setEntry del: set_map)

lemma decodeRoles_ok:
  "decodeRoles (map Inr rs) roles vs = Inr (roles', vs') \<Longrightarrow>
   vs' = vs @ map Version rs
   \<and> (\<forall>v r. map_of roles' v = Some r \<longrightarrow> map_of roles v = Some r \<or> (r \<in> set rs \<and> Version r = v))"
proof (induction rs arbitrary: roles vs)
  case Nil
  then show ?case by simp
next
  case (Cons r rs)
  from Cons.prems have
    "decodeRoles (map Inr rs) (setEntry roles (Version r) r) (vs @ [Version r]) = Inr (roles', vs')"
    by simp
  from Cons.IH [OF this] show ?case
    by (auto simp: map_of_setEntry split: if_splits)
qed

lemma decodeRoles_total: "\<exists>roles' vs'. decodeRoles (map Inr rs) roles vs = Inr (roles', vs')"
  by (induction rs arbitrary: roles vs) auto

lemma addRoles_events:
  "addRoles server roles versions oldRoles tr = (err, oldRoles', tr') \<Longrightarrow>
   EvAddShard shard w \<in> set tr' \<Longrightarrow>
   EvAddShard shard w \<in> set tr \<or> (\<exists>v\<in>set versions. w = int64 (v - 1))"
proof (induction versions arbitrary: oldRoles tr)
  case Nil
  then show ?case by simp
next
  case (Cons v versions)
  show ?case
  proof (cases "map_of oldRoles v \<noteq> None")
    case True
    with Cons.prems have "addRoles server roles versions oldRoles tr = (err, oldRoles', tr')"
      by simp
    from Cons.IH [OF this Cons.prems(2)] show ?thesis by auto
  next
    case False
    let ?role = "case map_of roles v of Some r \<Rightarrow> r
                 | None \<Rightarrow> \<lparr>Address = [], Version = 0, Masters = {}, Replicas = {}\<rparr>"
    let ?new = "filter (\<lambda>shard. \<not> containsShard oldRoles shard) (shards ?role)"
    let ?tr1 = "tr @ map (\<lambda>shard. EvAddShard shard (int64 (v - 1))) ?new"
    show ?thesis
    proof (cases "firstError (map (\<lambda>shard. AddShard server shard (int64 (v - 1))) ?new)")
      case (Some e)
      with False Cons.prems(1) have "tr' = ?tr1" by (auto simp: Let_def)
      with Cons.prems(2) show ?thesis by auto
    next
      case None
      with False Cons.prems(1) have
        "addRoles server roles versions (setEntry oldRoles v ?role) (?tr1 @ [EvVersionChan v]) =
           (err, oldRoles', tr')"
        by (simp add: Let_def)
      from Cons.IH [OF this Cons.prems(2)] show ?thesis by auto
    qed
  qed
qed

lemma removeRoles_events:
  "removeRoles server roles oldRoles tr = (err, tr') \<Longrightarrow>
   EvAddShard shard w \<in> set tr' \<Longrightarrow> EvAddShard shard w \<in> set tr"
proof (induction oldRoles arbitrary: tr)
  case Nil
  then show ?case by simp
next
  case (Cons x oldRoles)
  obtain v r where x: "x = (v, r)" by (cases x)
  show ?case
  proof (cases "map_of roles v \<noteq> None")
    case True
    with Cons.prems x have "removeRoles server roles oldRoles tr = (err, tr')" by simp
    from Cons.IH [OF this Cons.prems(2)] show ?thesis .
  next
    case False
    let ?gone = "filter (\<lambda>shard. \<not> containsShard roles shard) (shards r)"
    let ?tr1 = "tr @ map (\<lambda>shard. EvRemoveShard shard (int64 (v - 1))) ?gone"
    show ?thesis
    proof (cases "firstError (map (\<lambda>shard. RemoveShard server shard (int64 (v - 1))) ?gone)")
      case (Some e)
      with False Cons.prems(1) x have "tr' = ?tr1" by (auto simp: Let_def)
      with Cons.prems(2) show ?thesis by auto
    next
      case None
      with False Cons.prems(1) x have "removeRoles server roles oldRoles ?tr1 = (err, tr')"
        by (simp add: Let_def)
      from Cons.IH [OF this Cons.prems(2)] show ?thesis by auto
    qed
  qed
qed

lemma fold_setEntry:
  "distinct (map fst acc0) \<Longrightarrow>
   distinct (map fst (fold (\<lambda>v acc. setEntry acc v (f v)) vs acc0))
   \<and> length (fold (\<lambda>v acc. setEntry acc v (f v)) vs acc0) \<le> length vs + length acc0
   \<and> map_of (fold (\<lambda>v acc. setEntry acc v (f v)) vs acc0) =
       (\<lambda>u. if u \<in> set vs then Some (f u) else map_of acc0 u)"
proof (induction vs arbitrary: acc0)
  case Nil
  then show ?case by simp
next
  case (Cons v vs)
  have len: "length (setEntry acc0 v (f v)) \<le> Suc (length acc0)"
    using arg_cong [OF map_fst_setEntry [of acc0 v "f v"], of length] by (simp split: if_splits)
  from Cons.IH [OF distinct_setEntry [OF Cons.prems, of v "f v"]] len show ?case
    by (auto simp: map_of_setEntry fun_eq_iff)
qed

lemma decodeRoles_dom:
  "decodeRoles (map Inr rs) roles vs = Inr (roles', vs') \<Longrightarrow>
   v \<in> Version ` set rs \<or> map_of roles v \<noteq> None \<Longrightarrow> map_of roles' v \<noteq> None"
proof (induction rs arbitrary: roles vs)
  case Nil
  then show ?case by simp
next
  case (Cons r rs)
  from Cons.prems(1) have
    d: "decodeRoles (map Inr rs) (setEntry roles (Version r) r) (vs @ [Version r]) = Inr (roles', vs')"
    by simp
  from Cons.prems(2) have
    "v \<in> Version ` set rs \<or> map_of (setEntry roles (Version r) r) v \<noteq> None"
    by (auto simp: map_of_setEntry)
  from Cons.IH [OF d this] show ?case .
qed

text \<open>
  C1 (as amended). Each time the roles under the server's role key change, \<open>fillRoles\<close>
  keeps at most two of the role versions present, the two lowest: every other version
  present is at least as high as each kept one. A call of \<open>AddShard\<close> is made only for a
  kept version (with that version minus one), and when the pass succeeds the roles retained
  are exactly the roles of the kept versions, at most two, each one of the roles present.
\<close>

theorem fillRoles_keeps_two_lowest:
  assumes "fillRolesWatch server oldRoles (map Inr rs) = (err, oldRoles', tr)"
  shows "length (keptVersions (map Version rs)) \<le> 2
     \<and> set (keptVersions (map Version rs)) \<subseteq> Version ` set rs
     \<and> (\<forall>v\<in>set (keptVersions (map Version rs)). \<forall>u\<in>Version ` set rs.
           u \<notin> set (keptVersions (map Version rs)) \<longrightarrow> v \<le> u)
     \<and> (\<forall>shard w. EvAddShard shard w \<in> set tr \<longrightarrow>
           (\<exists>v\<in>set (keptVersions (map Version rs)). w = int64 (v - 1)))
     \<and> (err = None \<longrightarrow>
           set (map fst oldRoles') = set (keptVersions (map Version rs))
           \<and> length oldRoles' \<le> 2
           \<and> (\<forall>v r. (v, r) \<in> set oldRoles' \<longrightarrow> Version r = v \<and> r \<in> set rs))"
proof -
  let ?kept = "keptVersions (map Version rs)"
  let ?zero = "\<lparr>Address = [], Version = 0, Masters = {}, Replicas = {}\<rparr>"
  obtain roles vs where dec: "decodeRoles (map Inr rs) [] [] = Inr (roles, vs)"
    using decodeRoles_total by blast
  from decodeRoles_ok [OF dec] have vs: "vs = map Version rs"
    and roles: "\<And>v r. map_of roles v = Some r \<Longrightarrow> r \<in> set rs \<and> Version r = v"
    by auto
  let ?f = "\<lambda>v. case map_of roles v of Some r \<Rightarrow> r | None \<Rightarrow> ?zero"
  obtain e1 old1 tr1 where add: "addRoles server roles ?kept oldRoles [] = (e1, old1, tr1)"
    by (metis prod_cases3)
  have ev1: "\<exists>v\<in>set ?kept. w = int64 (v - 1)" if "EvAddShard shard w \<in> set tr1" for shard w
    using addRoles_events [OF add that] by simp
  have low: "\<forall>v\<in>set ?kept. \<forall>u\<in>Version ` set rs. u \<notin> set ?kept \<longrightarrow> v \<le> u"
    using keptVersions_lowest [of _ "map Version rs"] by auto
  have sub: "set ?kept \<subseteq> Version ` set rs"
    using keptVersions_subset [of "map Version rs"] by simp
  show ?thesis
  proof (cases e1)
    case (Some e)
    with assms dec vs add have "tr = tr1" "err \<noteq> None"
      by (auto simp: fillRolesWatch_def Let_def)
    with ev1 low sub keptVersions_length [of "map Version rs"] show ?thesis by blast
  next
    case None
    obtain e2 tr2 where rem: "removeRoles server roles old1 tr1 = (e2, tr2)"
      by (cases "removeRoles server roles old1 tr1")
    have ev2: "\<exists>v\<in>set ?kept. w = int64 (v - 1)" if "EvAddShard shard w \<in> set tr2" for shard w
      using removeRoles_events [OF rem that] ev1 by blast
    show ?thesis
    proof (cases e2)
      case (Some e)
      with assms dec vs add None rem have "tr = tr2" "err \<noteq> None"
        by (auto simp: fillRolesWatch_def Let_def)
      with ev2 low sub keptVersions_length [of "map Version rs"] show ?thesis by blast
    next
      case e2: None
      let ?new = "fold (\<lambda>v acc. setEntry acc v (?f v)) ?kept []"
      from assms dec vs add None rem e2 have res: "tr = tr2" "oldRoles' = ?new"
        by (auto simp: fillRolesWatch_def Let_def)
      have fold: "distinct (map fst ?new)" "length ?new \<le> length ?kept"
        "map_of ?new = (\<lambda>u. if u \<in> set ?kept then Some (?f u) else None)"
        using fold_setEntry [of "[]" ?f ?kept] by (simp_all cong: if_cong)
      have keys: "set (map fst ?new) = set ?kept"
      proof -
        have "set (map fst ?new) = dom (map_of ?new)"
          by (simp add: dom_map_of_conv_image_fst)
        also have "\<dots> = set ?kept"
          unfolding fold(3) by (auto split: if_splits)
        finally show ?thesis .
      qed
      have vals: "Version r = v \<and> r \<in> set rs" if "(v, r) \<in> set ?new" for v r
      proof -
        from that fold(1) have "map_of ?new v = Some r" by simp
        with fold(3) have v: "v \<in> set ?kept" and r: "r = ?f v"
          by (auto split: if_splits)
        from v sub have "v \<in> Version ` set rs" by blast
        with decodeRoles_dom [OF dec, of v] obtain r' where "map_of roles v = Some r'"
          by auto
        with r roles [of v r'] show ?thesis by simp
      qed
      from fold(2) keptVersions_length [of "map Version rs"] have "length ?new \<le> 2"
        by simp
      with res keys vals ev2 low sub keptVersions_length [of "map Version rs"] show ?thesis
        by blast
    qed
  qed
qed

theorem fillRoles_keeps_two_lowest_witness:
  "fillRolesWatch goodServer [] (map Inr [roleV 6 12, roleV 4 10, roleV 7 13, roleV 5 11]) =
     (None, [(4, roleV 4 10), (5, roleV 5 11)],
      [EvAddShard 10 3, EvVersionChan 4, EvAddShard 11 4, EvVersionChan 5])
   \<and> keptVersions (map Version [roleV 6 12, roleV 4 10, roleV 7 13, roleV 5 11]) = [4, 5]"
proof -
  have run: "fillRolesWatch goodServer [] (map Inr [roleV 6 12, roleV 4 10, roleV 7 13, roleV 5 11]) =
     (None, [(4, roleV 4 10), (5, roleV 5 11)],
      [EvAddShard 10 3, EvVersionChan 4, EvAddShard 11 4, EvVersionChan 5])"
    by (simp add: fillRolesWatch_def goodServer_def roleV_def keptVersions_def shards_def
        containsShard_def hasShard_def int64_def)
  from fillRoles_keeps_two_lowest [OF run] run show ?thesis
    by (simp add: keptVersions_def roleV_def)
qed

text \<open>
  C1, as stated, fails: with the versions 1, 2 and 3 present, \<open>fillRoles\<close> installs and
  retains 1 and 2; the highest version, 3, gets no \<open>AddShard\<close> and is not retained.
\<close>

theorem fillRoles_ignores_highest_version:
  "fillRoles goodServer [[Inr (roleV 3 12), Inr (roleV 1 10), Inr (roleV 2 11)]] =
     (None, [(1, roleV 1 10), (2, roleV 2 11)],
      [EvAddShard 10 0, EvVersionChan 1, EvAddShard 11 1, EvVersionChan 2])"
  by (simp add: fillRoles_def fillRolesWatch_def goodServer_def roleV_def keptVersions_def
      shards_def containsShard_def hasShard_def int64_def)

section \<open>Properties of AssignRoles\<close>

subsection \<open>Counting\<close>

lemma sum_change_one:
  assumes "finite D" "a \<in> D" "\<forall>b\<in>D. b \<noteq> a \<longrightarrow> g b = f b"
  shows "sum g D + f a = sum f D + (g a :: nat)"
proof -
  have "sum g (D - {a}) = sum f (D - {a})"
    using assms(3) by (intro sum.cong) auto
  moreover have "sum g D = g a + sum g (D - {a})" "sum f D = f a + sum f (D - {a})"
    using assms(1,2) by (simp_all add: sum.remove)
  ultimately show ?thesis by simp
qed

lemma countsOK_step:
  assumes ok: "countsOK D per rem0 c rem n"
    and a: "a \<in> D" "c a \<le> per" "\<not> (c a = per \<and> rem = 0)"
    and c': "\<forall>b\<in>D. c' b = (if b = a then c a + 1 else c b)"
    and rem': "rem' = (if c a = per \<and> rem > 0 then rem - 1 else rem)"
  shows "countsOK D per rem0 c' rem' (n + 1)"
proof -
  from ok have fin: "finite D" and le: "\<forall>b\<in>D. c b \<le> per + 1"
    and ex: "(\<Sum>b\<in>D. c b - per) + rem = rem0" and tot: "(\<Sum>b\<in>D. c b) = n"
    by (auto simp: countsOK_def)
  from c' a have ca: "c' a = c a + 1" and other: "\<forall>b\<in>D. b \<noteq> a \<longrightarrow> c' b = c b"
    by auto
  from sum_change_one [OF fin a(1), of c' c] other ca tot
  have tot': "(\<Sum>b\<in>D. c' b) = n + 1" by simp
  have "\<forall>b\<in>D. b \<noteq> a \<longrightarrow> c' b - per = c b - per" using other by simp
  from sum_change_one [OF fin a(1), of "\<lambda>b. c' b - per" "\<lambda>b. c b - per", OF this]
  have "(\<Sum>b\<in>D. c' b - per) + (c a - per) = (\<Sum>b\<in>D. c b - per) + (c' a - per)" .
  with ca a(2,3) ex rem' have ex': "(\<Sum>b\<in>D. c' b - per) + rem' = rem0"
    by (auto split: if_splits)
  from le c' a(2) have "\<forall>b\<in>D. c' b \<le> per + 1" by auto
  with fin ex' tot' show ?thesis by (simp add: countsOK_def)
qed

lemma countsOK_balanced:
  assumes ok: "countsOK D per rem0 c rem n"
    and K: "card D \<le> K" and big: "K * per + rem0 \<le> n"
  shows "n = K * per + rem0 \<and> (\<forall>a\<in>D. per \<le> c a \<and> c a \<le> per + 1)
     \<and> (rem0 = 0 \<longrightarrow> (\<forall>a\<in>D. c a = per))"
proof -
  from ok have fin: "finite D" and le: "\<forall>b\<in>D. c b \<le> per + 1"
    and ex: "(\<Sum>b\<in>D. c b - per) + rem = rem0" and tot: "(\<Sum>b\<in>D. c b) = n"
    by (auto simp: countsOK_def)
  have "(\<Sum>b\<in>D. c b) = (\<Sum>b\<in>D. min (c b) per + (c b - per))"
    by (rule sum.cong) (auto simp: min_def)
  then have split: "(\<Sum>b\<in>D. c b) = (\<Sum>b\<in>D. min (c b) per) + (\<Sum>b\<in>D. c b - per)"
    by (simp add: sum.distrib)
  have "(\<Sum>b\<in>D. min (c b) per) \<le> card D * per"
    using sum_bounded_above [of D "\<lambda>b. min (c b) per" per] by simp
  also have "\<dots> \<le> K * per" using K by simp
  finally have minle: "(\<Sum>b\<in>D. min (c b) per) \<le> K * per" .
  from split tot ex big minle have eq: "n = K * per + rem0"
    and mineq: "(\<Sum>b\<in>D. min (c b) per) = K * per" and "rem = 0"
    by linarith+
  have low: "per \<le> c a" if "a \<in> D" for a
  proof (rule ccontr)
    assume "\<not> per \<le> c a"
    then have lt: "c a < per" by simp
    have "(\<Sum>b\<in>D. min (c b) per) = min (c a) per + (\<Sum>b\<in>D - {a}. min (c b) per)"
      using fin that by (simp add: sum.remove)
    moreover have "(\<Sum>b\<in>D - {a}. min (c b) per) \<le> card (D - {a}) * per"
      using sum_bounded_above [of "D - {a}" "\<lambda>b. min (c b) per" per] by simp
    moreover have "card (D - {a}) = card D - 1" using fin that by simp
    moreover have "card D \<ge> 1" using fin that by (metis One_nat_def Suc_leI card_gt_0_iff empty_iff)
    ultimately have "(\<Sum>b\<in>D. min (c b) per) < card D * per"
      using lt by (cases "card D") (auto simp: min_def)
    also have "\<dots> \<le> K * per" using K by simp
    finally show False using mineq by simp
  qed
  have "c a = per" if "rem0 = 0" "a \<in> D" for a
  proof -
    from that(1) ex have "(\<Sum>b\<in>D. c b - per) = 0" by simp
    with fin that(2) have "c a - per = 0" by simp
    with low [OF that(2)] show ?thesis by simp
  qed
  with eq low le show ?thesis by blast
qed

lemma ceil_div: "0 < K \<Longrightarrow> (N + K - 1) div K = N div K + (if N mod K = 0 then 0 else (1::nat))"
proof -
  assume K: "0 < K"
  define q r where "q = N div K" and "r = N mod K"
  have N: "N = r + K * q" and r: "r < K"
    using K by (simp_all add: q_def r_def)
  show ?thesis
  proof (cases "r = 0")
    case True
    define m where "m = K - 1"
    with N K True have "N + K - 1 = m + K * q" "m < K" by simp_all
    then have "(N + K - 1) div K = q" by simp
    with True show ?thesis by (simp add: q_def r_def)
  next
    case False
    define m where "m = r - 1"
    with N False r have "N + K - 1 = m + K * (q + 1)" "m < K" by simp_all
    then have "(N + K - 1) div K = q + 1"
      by (simp only: div_mult_self2) simp
    with False show ?thesis by (simp add: q_def r_def)
  qed
qed

subsection \<open>What a successful call does\<close>

lemma assignMaster_True:
  assumes "assignMaster roles ms a s per rem = (True, roles', ms', rem')"
  shows "\<exists>r. roles a = Some r \<and> \<not> hasShard r s \<and> card (Masters r) \<le> per
     \<and> \<not> (card (Masters r) = per \<and> rem = 0)
     \<and> roles' = roles(a \<mapsto> r\<lparr>Masters := insert s (Masters r)\<rparr>)
     \<and> ms' = ms(s \<mapsto> a)
     \<and> rem' = (if card (Masters r) = per \<and> rem > 0 then rem - 1 else rem)"
proof -
  from assms obtain r where r: "roles a = Some r"
    by (cases "roles a") (simp_all add: assignMaster_def)
  from assms r have c: "\<not> card (Masters r) > per" "\<not> (card (Masters r) = per \<and> rem = 0)"
    "\<not> hasShard r s"
    by (auto simp: assignMaster_def split: if_splits)
  with assms r have "roles' = roles(a \<mapsto> r\<lparr>Masters := insert s (Masters r)\<rparr>)"
    "ms' = ms(s \<mapsto> a)" "rem' = (if card (Masters r) = per \<and> rem > 0 then rem - 1 else rem)"
    by (simp_all add: assignMaster_def)
  with r c show ?thesis by simp
qed


lemma assignReplica_True:
  assumes "assignReplica roles ms reps a s per rem = (True, roles', reps', rem')"
  shows "\<exists>r. roles a = Some r \<and> \<not> hasShard r s \<and> card (Replicas r) \<le> per
     \<and> \<not> (card (Replicas r) = per \<and> rem = 0)
     \<and> roles' = roles(a \<mapsto> r\<lparr>Replicas := insert s (Replicas r)\<rparr>)
     \<and> reps' = reps(s := reps s @ [a])
     \<and> rem' = (if card (Replicas r) = per \<and> rem > 0 then rem - 1 else rem)"
proof -
  from assms obtain r where r: "roles a = Some r"
    by (cases "roles a") (simp_all add: assignReplica_def)
  from assms r have c: "\<not> card (Replicas r) > per" "\<not> (card (Replicas r) = per \<and> rem = 0)"
    "\<not> hasShard r s"
    by (auto simp: assignReplica_def split: if_splits)
  with assms r have "roles' = roles(a \<mapsto> r\<lparr>Replicas := insert s (Replicas r)\<rparr>)"
    "reps' = reps(s := reps s @ [a])" "rem' = (if card (Replicas r) = per \<and> rem > 0 then rem - 1 else rem)"
    by (simp_all add: assignReplica_def)
  with r c show ?thesis by simp
qed


lemma assignReplica_does:
  assumes "roles a = Some r" "\<not> hasShard r s" "card (Replicas r) < per"
  shows "assignReplica roles ms reps a s per 0 =
     (True, roles(a \<mapsto> r\<lparr>Replicas := insert s (Replicas r)\<rparr>), reps(s := reps s @ [a]), 0)"
  using assms by (simp add: assignReplica_def)

lemma tryMaster_Some:
  "tryMaster roles ms s per rem cands = Some (roles', ms', rem') \<Longrightarrow>
   \<exists>a. assignMaster roles ms a s per rem = (True, roles', ms', rem')"
proof (induction cands)
  case Nil
  then show ?case by simp
next
  case (Cons a cands)
  obtain b x where r: "assignMaster roles ms a s per rem = (b, x)"
    by (cases "assignMaster roles ms a s per rem")
  show ?case
  proof (cases b)
    case True
    with r Cons.prems show ?thesis by (cases x) auto
  next
    case False
    with r Cons.prems have "tryMaster roles ms s per rem cands = Some (roles', ms', rem')"
      by simp
    from Cons.IH [OF this] show ?thesis .
  qed
qed

lemma tryReplica_Some:
  "tryReplica roles ms reps s per rem cands = Some (roles', reps', rem') \<Longrightarrow>
   \<exists>a. assignReplica roles ms reps a s per rem = (True, roles', reps', rem')"
proof (induction cands)
  case Nil
  then show ?case by simp
next
  case (Cons a cands)
  obtain b x where r: "assignReplica roles ms reps a s per rem = (b, x)"
    by (cases "assignReplica roles ms reps a s per rem")
  show ?case
  proof (cases b)
    case True
    with r Cons.prems show ?thesis by (cases x) auto
  next
    case False
    with r Cons.prems have "tryReplica roles ms reps s per rem cands = Some (roles', reps', rem')"
      by simp
    from Cons.IH [OF this] show ?thesis .
  qed
qed

lemma trySwap_Some:
  "trySwap roles ms reps s per rr rp cands = Some (roles', reps') \<Longrightarrow>
   \<exists>a. swapReplica roles ms reps a s per (rr a) (rp a) = (True, roles', reps')"
proof (induction cands)
  case Nil
  then show ?case by simp
next
  case (Cons a cands)
  obtain b x where r: "swapReplica roles ms reps a s per (rr a) (rp a) = (b, x)"
    by (cases "swapReplica roles ms reps a s per (rr a) (rp a)")
  show ?case
  proof (cases b)
    case True
    with r Cons.prems show ?thesis by (cases x) auto
  next
    case False
    with r Cons.prems have "trySwap roles ms reps s per rr rp cands = Some (roles', reps')"
      by simp
    from Cons.IH [OF this] show ?thesis .
  qed
qed

lemma findSwapShard_Some:
  "findSwapShard r sr s cands = Some t \<Longrightarrow>
   t \<in> Replicas sr \<and> \<not> hasShard r t \<and> \<not> hasShard sr s"
  by (induction cands) (auto split: if_splits)

lemma findSwap_Some:
  "findSwap roles r a s rp cands = Some (swapID, sr, t) \<Longrightarrow>
   swapID \<noteq> a \<and> roles swapID = Some sr \<and> t \<in> Replicas sr \<and> \<not> hasShard r t \<and> \<not> hasShard sr s"
proof (induction cands)
  case Nil
  then show ?case by simp
next
  case (Cons c cands)
  show ?case
  proof (cases "c \<noteq> a \<and> (\<exists>sr'. roles c = Some sr' \<and> findSwapShard r sr' s (rp c) \<noteq> None)")
    case True
    then obtain sr' t' where "c \<noteq> a" "roles c = Some sr'" "findSwapShard r sr' s (rp c) = Some t'"
      by auto
    with Cons.prems findSwapShard_Some [of r sr' s "rp c" t'] show ?thesis by auto
  next
    case False
    with Cons.prems have "findSwap roles r a s rp cands = Some (swapID, sr, t)"
      by (auto split: option.splits if_splits)
    from Cons.IH [OF this] show ?thesis .
  qed
qed

lemma swapReplica_True:
  assumes "swapReplica roles ms reps a s per rr rp = (True, roles', reps')"
    and small: "\<forall>b r. roles b = Some r \<longrightarrow> b \<noteq> a \<longrightarrow> card (Replicas r) \<le> MaxUint64"
    and fin: "\<forall>b r. roles b = Some r \<longrightarrow> finite (Replicas r)"
  shows "\<exists>r swapID sr t. roles a = Some r \<and> card (Replicas r) < per \<and> swapID \<noteq> a
     \<and> roles swapID = Some sr \<and> t \<in> Replicas sr \<and> \<not> hasShard r t \<and> \<not> hasShard sr s
     \<and> roles' = roles(swapID \<mapsto> sr\<lparr>Replicas := insert s (Replicas sr - {t})\<rparr>,
                       a \<mapsto> r\<lparr>Replicas := insert t (Replicas r)\<rparr>)"
proof -
  from assms(1) obtain r where r: "roles a = Some r" "card (Replicas r) < per"
    by (auto simp: swapReplica_def split: option.splits if_splits)
  with assms(1) obtain swapID sr t where f: "findSwap roles r a s rp rr = Some (swapID, sr, t)"
    by (auto simp: swapReplica_def split: option.splits if_splits)
  from findSwap_Some [OF f] have p: "swapID \<noteq> a" "roles swapID = Some sr" "t \<in> Replicas sr"
    "\<not> hasShard r t" "\<not> hasShard sr s" by auto
  let ?sr1 = "sr\<lparr>Replicas := Replicas sr - {t}\<rparr>"
  let ?roles1 = "roles(swapID \<mapsto> ?sr1)"
  let ?reps1 = "removeReplica reps t swapID"
  from p small fin have "finite (Replicas sr)" by auto
  from p small have "card (Replicas sr) \<le> MaxUint64" by auto
  moreover from p(3) \<open>finite (Replicas sr)\<close> have "card (Replicas sr - {t}) < card (Replicas sr)"
    by (rule_tac card_Diff1_less)
  ultimately have c1: "card (Replicas ?sr1) < MaxUint64"
    by simp
  from p(5) have h1: "\<not> hasShard ?sr1 s" by (auto simp: hasShard_def)
  have r1: "?roles1 swapID = Some ?sr1" by simp
  have a1: "assignReplica ?roles1 ms ?reps1 swapID s MaxUint64 0 =
     (True, ?roles1(swapID \<mapsto> ?sr1\<lparr>Replicas := insert s (Replicas ?sr1)\<rparr>),
      ?reps1(s := ?reps1 s @ [swapID]), 0)"
    using assignReplica_does [where roles = ?roles1 and a = swapID and r = ?sr1 and s = s
        and per = MaxUint64 and ms = ms and reps = ?reps1] r1 h1 c1
    by blast
  let ?roles2 = "?roles1(swapID \<mapsto> ?sr1\<lparr>Replicas := insert s (Replicas ?sr1)\<rparr>)"
  let ?reps2 = "?reps1(s := ?reps1 s @ [swapID])"
  from p(1) r(1) have r2: "?roles2 a = Some r" by simp
  have a2: "assignReplica ?roles2 ms ?reps2 a t per 0 =
     (True, ?roles2(a \<mapsto> r\<lparr>Replicas := insert t (Replicas r)\<rparr>), ?reps2(t := ?reps2 t @ [a]), 0)"
    using assignReplica_does [where roles = ?roles2 and a = a and r = r and s = t
        and per = per and ms = ms and reps = ?reps2] r2 p(4) r(2)
    by blast
  from assms(1) r f a1 a2 have "roles' = ?roles2(a \<mapsto> r\<lparr>Replicas := insert t (Replicas r)\<rparr>)"
    by (simp add: swapReplica_def Let_def)
  with r p show ?thesis
    by (intro exI [of _ r] exI [of _ swapID] exI [of _ sr] exI [of _ t]) simp
qed

subsection \<open>What the loops keep\<close>

lemma assignMaster_inv:
  assumes inv: "masterInv D per rem0 P roles ms rem" and s: "s \<notin> P"
    and run: "assignMaster roles ms a s per rem = (True, roles', ms', rem')"
  shows "masterInv D per rem0 (insert s P) roles' ms' rem'"
proof -
  from assignMaster_True [OF run] obtain r where r: "roles a = Some r"
    and c: "card (Masters r) \<le> per" "\<not> (card (Masters r) = per \<and> rem = 0)"
    and roles': "roles' = roles(a \<mapsto> r\<lparr>Masters := insert s (Masters r)\<rparr>)"
    and ms': "ms' = ms(s \<mapsto> a)"
    and rem': "rem' = (if card (Masters r) = per \<and> rem > 0 then rem - 1 else rem)"
    by blast
  from inv have ok: "rolesOK roles" and D: "dom roles = D" and P: "finite P"
    and cnt: "countsOK D per rem0 (masterCount roles) rem (card P)"
    and sub: "\<And>b rb. roles b = Some rb \<Longrightarrow> Masters rb \<subseteq> P \<and> Replicas rb = {}"
    and uniq: "\<And>b rb t. roles b = Some rb \<Longrightarrow> t \<in> Masters rb \<Longrightarrow> ms t = Some b"
    by (auto simp: masterInv_def)
  from ok r have fin: "finite (Masters r)" by (auto simp: rolesOK_def)
  from sub [OF r] s have notin: "s \<notin> Masters r" and norep: "Replicas r = {}" by auto
  from r D have aD: "a \<in> D" by auto
  have ok': "rolesOK roles'"
    using ok r norep unfolding rolesOK_def roles' by auto
  have D': "dom roles' = D"
    using D aD unfolding roles' by auto
  have c': "\<forall>b\<in>D. masterCount roles' b = (if b = a then masterCount roles a + 1 else masterCount roles b)"
    using fin notin r unfolding roles' masterCount_def by simp
  from c r have c1: "masterCount roles a \<le> per" "\<not> (masterCount roles a = per \<and> rem = 0)"
    by (simp_all add: masterCount_def)
  from rem' r have rem'': "rem' = (if masterCount roles a = per \<and> rem > 0 then rem - 1 else rem)"
    by (simp add: masterCount_def)
  have "countsOK D per rem0 (masterCount roles') rem' (card P + 1)"
    by (rule countsOK_step [OF cnt aD c1 c' rem''])
  moreover have "card (insert s P) = card P + 1" using P s by simp
  ultimately have cnt': "countsOK D per rem0 (masterCount roles') rem' (card (insert s P))"
    by simp
  have sub': "Masters rb \<subseteq> insert s P \<and> Replicas rb = {}" if "roles' b = Some rb" for b rb
    using that sub [of b rb] sub [OF r] unfolding roles' by (auto split: if_splits)
  have uniq': "ms' t = Some b" if "roles' b = Some rb" "t \<in> Masters rb" for b rb t
  proof (cases "b = a")
    case True
    with that roles' have "t = s \<or> t \<in> Masters r" by auto
    with uniq [OF r] notin True show ?thesis unfolding ms' by auto
  next
    case False
    with that roles' have rb: "roles b = Some rb" by simp
    from sub [OF rb] that(2) s have "t \<noteq> s" by auto
    with uniq [OF rb that(2)] show ?thesis unfolding ms' by simp
  qed
  from ok' D' P cnt' sub' uniq' show ?thesis
    unfolding masterInv_def by blast
qed

lemma assignMasters_inv:
  assumes "masterInv D per rem0 P roles ms rem" "distinct shs" "set shs \<inter> P = {}"
    "assignMasters oldM oldR states rg per shs roles ms rem = Some (roles', ms', rem')"
  shows "masterInv D per rem0 (P \<union> set shs) roles' ms' rem'"
  using assms
proof (induction shs arbitrary: P roles ms rem)
  case Nil
  then show ?case by simp
next
  case (Cons s shs)
  from Cons.prems(4) obtain roles1 ms1 rem1 where
    t: "tryMaster roles ms s per rem (candidates oldM oldR states (rangeServerStates rg 0 s) s) =
        Some (roles1, ms1, rem1)"
    and rest: "assignMasters oldM oldR states rg per shs roles1 ms1 rem1 = Some (roles', ms', rem')"
    by (auto split: option.splits)
  from tryMaster_Some [OF t] obtain a where
    "assignMaster roles ms a s per rem = (True, roles1, ms1, rem1)" by blast
  from assignMaster_inv [OF Cons.prems(1) _ this] Cons.prems(3)
  have "masterInv D per rem0 (insert s P) roles1 ms1 rem1" by simp
  from Cons.IH [OF this _ _ rest] Cons.prems(2,3)
  have "masterInv D per rem0 (insert s P \<union> set shs) roles' ms' rem'" by auto
  then show ?case by simp
qed

lemma assignReplica_inv:
  assumes inv: "replicaInv D per rem0 roles0 roles rem n"
    and run: "assignReplica roles ms reps a s per rem = (True, roles', reps', rem')"
  shows "replicaInv D per rem0 roles0 roles' rem' (n + 1)"
proof -
  from assignReplica_True [OF run] obtain r where r: "roles a = Some r"
    and h: "\<not> hasShard r s"
    and c: "card (Replicas r) \<le> per" "\<not> (card (Replicas r) = per \<and> rem = 0)"
    and roles': "roles' = roles(a \<mapsto> r\<lparr>Replicas := insert s (Replicas r)\<rparr>)"
    and rem': "rem' = (if card (Replicas r) = per \<and> rem > 0 then rem - 1 else rem)"
    by blast
  from inv have ok: "rolesOK roles" and D: "dom roles = D"
    and cnt: "countsOK D per rem0 (replicaCount roles) rem n"
    and same: "\<And>b. map_option Masters (roles b) = map_option Masters (roles0 b)"
    by (auto simp: replicaInv_def)
  from ok r have fin: "finite (Replicas r)" by (auto simp: rolesOK_def)
  from h have notin: "s \<notin> Replicas r" "s \<notin> Masters r" by (auto simp: hasShard_def)
  from r D have aD: "a \<in> D" by auto
  have ok': "rolesOK roles'"
    using ok r notin unfolding rolesOK_def roles' by auto
  have D': "dom roles' = D"
    using D aD unfolding roles' by auto
  have c': "\<forall>b\<in>D. replicaCount roles' b = (if b = a then replicaCount roles a + 1 else replicaCount roles b)"
    using fin notin r unfolding roles' replicaCount_def by simp
  from c r have c1: "replicaCount roles a \<le> per" "\<not> (replicaCount roles a = per \<and> rem = 0)"
    by (simp_all add: replicaCount_def)
  from rem' r have rem'': "rem' = (if replicaCount roles a = per \<and> rem > 0 then rem - 1 else rem)"
    by (simp add: replicaCount_def)
  have cnt': "countsOK D per rem0 (replicaCount roles') rem' (n + 1)"
    by (rule countsOK_step [OF cnt aD c1 c' rem''])
  have same': "map_option Masters (roles' b) = map_option Masters (roles0 b)" for b
    using same [of b] r unfolding roles' by auto
  from ok' D' cnt' same' show ?thesis
    unfolding replicaInv_def by blast
qed

lemma swapReplica_inv:
  assumes inv: "replicaInv D per rem0 roles0 roles rem n"
    and perOK: "2 \<le> card D \<longrightarrow> per < MaxUint64"
    and run: "swapReplica roles ms reps a s per rr rp = (True, roles', reps')"
  shows "replicaInv D per rem0 roles0 roles' rem (n + 1)"
proof -
  from inv have ok: "rolesOK roles" and D: "dom roles = D"
    and cnt: "countsOK D per rem0 (replicaCount roles) rem n"
    and same: "\<And>b. map_option Masters (roles b) = map_option Masters (roles0 b)"
    by (auto simp: replicaInv_def)
  from cnt have finD: "finite D" and le: "\<forall>b\<in>D. replicaCount roles b \<le> per + 1"
    by (auto simp: countsOK_def)
  from run obtain r0 where r0: "roles a = Some r0"
    by (cases "roles a") (simp_all add: swapReplica_def)
  have small: "\<forall>b r. roles b = Some r \<longrightarrow> b \<noteq> a \<longrightarrow> card (Replicas r) \<le> MaxUint64"
  proof (intro allI impI)
    fix b r assume b: "roles b = Some r" "b \<noteq> a"
    with r0 D have "{a, b} \<subseteq> D" by auto
    with finD have "card {a, b} \<le> card D" by (rule_tac card_mono)
    with b(2) perOK have "per < MaxUint64" by simp
    moreover from b D le have "card (Replicas r) \<le> per + 1"
      by (force simp: replicaCount_def)
    ultimately show "card (Replicas r) \<le> MaxUint64" by simp
  qed
  from ok have fins: "\<forall>b r. roles b = Some r \<longrightarrow> finite (Replicas r)"
    by (auto simp: rolesOK_def)
  from swapReplica_True [OF run small fins] obtain r swapID sr t where
    r: "roles a = Some r" and c: "card (Replicas r) < per" and ne: "swapID \<noteq> a"
    and sr: "roles swapID = Some sr" and t: "t \<in> Replicas sr"
    and h: "\<not> hasShard r t" "\<not> hasShard sr s"
    and roles': "roles' = roles(swapID \<mapsto> sr\<lparr>Replicas := insert s (Replicas sr - {t})\<rparr>,
                       a \<mapsto> r\<lparr>Replicas := insert t (Replicas r)\<rparr>)"
    by blast
  from ok r sr have fin: "finite (Replicas r)" "finite (Replicas sr)"
    and dis: "Masters r \<inter> Replicas r = {}" "Masters sr \<inter> Replicas sr = {}"
    by (auto simp: rolesOK_def)
  from h have notin: "t \<notin> Replicas r" "t \<notin> Masters r" "s \<notin> Replicas sr" "s \<notin> Masters sr"
    by (auto simp: hasShard_def)
  from r sr D have aD: "a \<in> D" "swapID \<in> D" by auto
  have ok': "rolesOK roles'"
    using ok r sr notin dis unfolding rolesOK_def roles' by auto
  have D': "dom roles' = D"
    using D aD unfolding roles' by auto
  have "card (insert s (Replicas sr - {t})) = Suc (card (Replicas sr - {t}))"
    using fin(2) notin(3) by simp
  also have "\<dots> = card (Replicas sr)"
    using card.remove [OF fin(2) t] by simp
  finally have c': "\<forall>b\<in>D. replicaCount roles' b =
      (if b = a then replicaCount roles a + 1 else replicaCount roles b)"
    using fin notin r sr ne unfolding roles' replicaCount_def by simp
  from c r have c1: "replicaCount roles a \<le> per" "\<not> (replicaCount roles a = per \<and> rem = 0)"
    and rem'': "rem = (if replicaCount roles a = per \<and> rem > 0 then rem - 1 else rem)"
    by (simp_all add: replicaCount_def)
  have cnt': "countsOK D per rem0 (replicaCount roles') rem (n + 1)"
    by (rule countsOK_step [OF cnt aD(1) c1 c' rem''])
  have same': "map_option Masters (roles' b) = map_option Masters (roles0 b)" for b
    using same [of b] r sr unfolding roles' by auto
  from ok' D' cnt' same' show ?thesis
    unfolding replicaInv_def by blast
qed

lemma assignReplicas_inv:
  assumes "replicaInv D per rem0 roles0 roles rem n" "2 \<le> card D \<longrightarrow> per < MaxUint64"
    "assignReplicas oldM oldR states rg per ms pairs roles reps rem = Some (roles', reps', rem')"
  shows "replicaInv D per rem0 roles0 roles' rem' (n + length pairs)"
  using assms
proof (induction pairs arbitrary: roles reps rem n)
  case Nil
  then show ?case by simp
next
  case (Cons p pairs)
  obtain replica s where p: "p = (replica, s)" by (cases p)
  let ?attempt = "tryReplica roles ms reps s per rem
      (candidates oldM oldR states (rangeServerStates rg (Suc replica) s) s)"
  show ?case
  proof (cases ?attempt)
    case (Some x)
    obtain roles1 reps1 rem1 where x: "x = (roles1, reps1, rem1)" by (cases x)
    from tryReplica_Some [OF Some [unfolded x]] obtain a where
      "assignReplica roles ms reps a s per rem = (True, roles1, reps1, rem1)" by blast
    from assignReplica_inv [OF Cons.prems(1) this]
    have inv1: "replicaInv D per rem0 roles0 roles1 rem1 (n + 1)" .
    from Cons.prems(3) p Some x have
      "assignReplicas oldM oldR states rg per ms pairs roles1 reps1 rem1 = Some (roles', reps', rem')"
      by simp
    from Cons.IH [OF inv1 Cons.prems(2) this] show ?thesis by simp
  next
    case None
    with Cons.prems(3) p obtain roles1 reps1 where
      sw: "trySwap roles ms reps s per (rangeServerRoles rg replica s) (rangeReplicas rg replica s)
             (rangeSwapStates rg replica s) = Some (roles1, reps1)"
      and rest: "assignReplicas oldM oldR states rg per ms pairs roles1 reps1 rem =
             Some (roles', reps', rem')"
      by (auto split: option.splits)
    from trySwap_Some [OF sw] obtain a where
      "swapReplica roles ms reps a s per (rangeServerRoles rg replica s a)
         (rangeReplicas rg replica s a) = (True, roles1, reps1)" by blast
    from swapReplica_inv [OF Cons.prems(1,2) this]
    have inv1: "replicaInv D per rem0 roles0 roles1 rem (n + 1)" .
    from Cons.IH [OF inv1 Cons.prems(2) rest] show ?thesis by simp
  qed
qed

lemma initialRoles_apply:
  "initialRoles version states a =
     (if a \<in> SAddress ` set states
      then Some \<lparr>Address = a, Version = version, Masters = {}, Replicas = {}\<rparr> else None)"
proof -
  have "fold (\<lambda>serverState newRoles.
             newRoles(SAddress serverState \<mapsto>
               \<lparr>Address = SAddress serverState, Version = version, Masters = {}, Replicas = {}\<rparr>))
          states m a =
        (if a \<in> SAddress ` set states
         then Some \<lparr>Address = a, Version = version, Masters = {}, Replicas = {}\<rparr> else m a)" for m
    by (induction states arbitrary: m) auto
  then show ?thesis by (simp add: initialRoles_def)
qed

lemma masterInv_initial:
  "masterInv (SAddress ` set states) per rem0 {} (initialRoles version states) Map.empty rem0"
proof -
  have "masterCount (initialRoles version states) = (\<lambda>a. 0)"
    by (auto simp: masterCount_def initialRoles_apply fun_eq_iff)
  moreover have "dom (initialRoles version states) = SAddress ` set states"
    by (auto simp: initialRoles_apply dom_def)
  ultimately show ?thesis
    by (auto simp: masterInv_def rolesOK_def countsOK_def initialRoles_apply split: if_splits)
qed

lemma replicaInv_initial:
  assumes "masterInv D perM remM0 P roles ms remM"
  shows "replicaInv D per rem0 roles roles rem0 0"
proof -
  from assms have "\<And>a r. roles a = Some r \<Longrightarrow> Replicas r = {}" and D: "dom roles = D"
    and ok: "rolesOK roles"
    by (auto simp: masterInv_def)
  then have "replicaCount roles = (\<lambda>a. 0)"
    by (auto simp: replicaCount_def fun_eq_iff split: option.splits)
  moreover from ok D have "finite D" by (auto simp: rolesOK_def)
  ultimately show ?thesis using ok D
    by (simp add: replicaInv_def countsOK_def)
qed

lemma fillAddresses_keeps:
  assumes "fillAddresses roles order A = Inr A'" "A s = Some sa" "AMaster sa = a"
    "\<forall>b rb. roles b = Some rb \<and> s \<in> Masters rb \<longrightarrow> b = a"
  shows "\<exists>sa'. A' s = Some sa' \<and> AMaster sa' = a"
  using assms
proof (induction order arbitrary: A sa)
  case Nil
  then show ?case by simp
next
  case (Cons b order)
  show ?case
  proof (cases "roles b")
    case None
    with Cons.prems(1) have "fillAddresses roles order A = Inr A'" by simp
    from Cons.IH [OF this Cons.prems(2,3,4)] show ?thesis .
  next
    case (Some rb)
    let ?A1 = "\<lambda>shard. case A shard of None \<Rightarrow> None
        | Some shardAddresses \<Rightarrow>
            Some (shardAddresses
              \<lparr>AMaster := (if shard \<in> Masters rb then b else AMaster shardAddresses),
               AReplicas := (if shard \<in> Replicas rb then insert b (AReplicas shardAddresses)
                              else AReplicas shardAddresses)\<rparr>)"
    from Some Cons.prems(1) have rest: "fillAddresses roles order ?A1 = Inr A'"
      by (simp split: if_splits)
    from Cons.prems(2,3,4) Some have
      "\<exists>sa1. ?A1 s = Some sa1 \<and> AMaster sa1 = a" by auto
    then obtain sa1 where "?A1 s = Some sa1" "AMaster sa1 = a" by blast
    from Cons.IH [OF rest this Cons.prems(4)] show ?thesis .
  qed
qed

lemma fillAddresses_master:
  "fillAddresses roles order A = Inr A' \<Longrightarrow> a \<in> set order \<Longrightarrow> roles a = Some r \<Longrightarrow> s \<in> Masters r \<Longrightarrow>
   \<forall>b rb. roles b = Some rb \<and> s \<in> Masters rb \<longrightarrow> b = a \<Longrightarrow>
   \<exists>sa. A' s = Some sa \<and> AMaster sa = a"
proof (induction order arbitrary: A)
  case Nil
  from Nil.prems(2) show ?case by simp
next
  case (Cons b order)
  show ?case
  proof (cases "roles b")
    case None
    with Cons.prems(1) have rest: "fillAddresses roles order A = Inr A'" by simp
    from None Cons.prems(2,3) have "a \<in> set order" by auto
    from Cons.IH [OF rest this Cons.prems(3,4,5)] show ?thesis .
  next
    case (Some rb)
    let ?A1 = "\<lambda>shard. case A shard of None \<Rightarrow> None
        | Some shardAddresses \<Rightarrow>
            Some (shardAddresses
              \<lparr>AMaster := (if shard \<in> Masters rb then b else AMaster shardAddresses),
               AReplicas := (if shard \<in> Replicas rb then insert b (AReplicas shardAddresses)
                              else AReplicas shardAddresses)\<rparr>)"
    from Some Cons.prems(1) have rest: "fillAddresses roles order ?A1 = Inr A'"
      by (simp split: if_splits)
    from Some Cons.prems(1) have there: "\<not> (\<exists>shard \<in> Masters rb \<union> Replicas rb. A shard = None)"
      by (simp split: if_splits)
    show ?thesis
    proof (cases "b = a")
      case True
      from True Some Cons.prems(3,4) have "s \<in> Masters rb \<union> Replicas rb" by simp
      with there obtain sa0 where sa0: "A s = Some sa0"
        by (cases "A s") blast+
      with True Some Cons.prems(3,4) have "?A1 s = Some (sa0\<lparr>AMaster := a,
          AReplicas := (if s \<in> Replicas rb then insert b (AReplicas sa0) else AReplicas sa0)\<rparr>)"
        by simp
      from fillAddresses_keeps [OF rest this _ Cons.prems(5)] show ?thesis by simp
    next
      case False
      with Cons.prems(2) have "a \<in> set order" by simp
      from Cons.IH [OF rest this Cons.prems(3,4,5)] show ?thesis .
    qed
  qed
qed

lemma assignRolesPass_Assigned:
  assumes "assignRolesPass N R version oldServers oldMasters oldReplicas rg staleRolesErr setErr
      states = Assigned newRoles newMasters newReplicas addresses"
  shows "states \<noteq> []
     \<and> (\<exists>roles1 remM remR.
          masterInv (SAddress ` set states) (N div length states) (N mod length states)
            {0..<N} roles1 newMasters remM
          \<and> replicaInv (SAddress ` set states) (((N * R) mod 2 ^ 64) div length states)
               (((N * R) mod 2 ^ 64) mod length states) roles1 newRoles remR (R * N))
     \<and> fillAddresses newRoles (rangeNewRoles rg)
          (\<lambda>shard. if shard < N then Some \<lparr>AMaster = [], AReplicas = {}\<rparr> else None) =
         Inr (AAddresses addresses)"
proof -
  let ?K = "length states"
  let ?D = "SAddress ` set states"
  let ?perR = "((N * R) mod 2 ^ 64) div ?K"
  let ?remR = "((N * R) mod 2 ^ 64) mod ?K"
  from assms have ne: "states \<noteq> []"
    by (auto simp: assignRolesPass_def split: if_splits)
  from assms ne obtain roles1 remM where
    m: "assignMasters oldMasters oldReplicas states rg (N div ?K) [0..<N]
          (initialRoles version states) Map.empty (N mod ?K) = Some (roles1, newMasters, remM)"
    by (auto simp: assignRolesPass_def Let_def split: if_splits option.splits sum.splits)
  from assms ne m obtain remR where
    r: "assignReplicas oldMasters oldReplicas states rg ?perR newMasters
          (List.product [0..<R] [0..<N]) roles1 (\<lambda>shard. []) ?remR =
        Some (newRoles, newReplicas, remR)"
    by (auto simp: assignRolesPass_def Let_def split: if_splits option.splits sum.splits)
  from assms ne m r have
    f: "fillAddresses newRoles (rangeNewRoles rg)
          (\<lambda>shard. if shard < N then Some \<lparr>AMaster = [], AReplicas = {}\<rparr> else None) =
         Inr (AAddresses addresses)"
    by (auto simp: assignRolesPass_def Let_def split: if_splits option.splits sum.splits)
  from assignMasters_inv [OF masterInv_initial _ _ m]
  have mi: "masterInv ?D (N div ?K) (N mod ?K) {0..<N} roles1 newMasters remM"
    by simp
  have "card ?D \<le> ?K"
    by (metis card_image_le card_length le_trans List.finite_set)
  moreover have "?perR < MaxUint64" if "2 \<le> ?K"
  proof -
    have "(N * R) mod 2 ^ 64 < (2::nat) ^ 64" by simp
    then have "(N * R) mod 2 ^ 64 \<le> (2::nat) ^ 64 - 1" by simp
    then have "((N * R) mod 2 ^ 64) div 2 \<le> ((2::nat) ^ 64 - 1) div 2"
      by (rule div_le_mono)
    moreover have "?perR \<le> ((N * R) mod 2 ^ 64) div 2"
      using that by (intro div_le_mono2) simp_all
    ultimately have "?perR \<le> ((2::nat) ^ 64 - 1) div 2" by (rule_tac order_trans)
    then show ?thesis by (simp add: MaxUint64_def)
  qed
  ultimately have perOK: "2 \<le> card ?D \<longrightarrow> ?perR < MaxUint64" by auto
  from assignReplicas_inv [OF replicaInv_initial [OF mi] perOK r]
  have "replicaInv ?D ?perR ?remR roles1 newRoles remR (R * N)"
    by simp
  with ne mi f show ?thesis by blast
qed

subsection \<open>Balance and role safety\<close>

lemma upt_0_3: "[0..<3] = [0, 1, 2]"
  by code_simp

lemma upt_0_4: "[0..<4] = [0, 1, 2, 3]"
  by code_simp

lemmas pass_eval = threeServers_def assignRolesPass_def Let_def sameServers_def
  initialRoles_def candidates_def shardLocations_def assignMaster_def assignReplica_def
  swapReplica_def hasShard_def removeReplica_def MaxUint64_def plainRanges_def serverNamed_def
  isAssigned_def upt_0_3 upt_0_4

lemma isAssignedE:
  assumes "isAssigned result"
  obtains newRoles newMasters newReplicas addresses
  where "result = Assigned newRoles newMasters newReplicas addresses"
  using assms by (cases result) (simp_all add: isAssigned_def)

text \<open>
  C2. On every pass of AssignRoles that assigns (it writes the new roles and addresses
  instead of logging FailedToAssignRoles), with \<open>K\<close> server states, \<open>N\<close> shards and \<open>R\<close>
  replicas, every server has a role, the number of masters of each role is \<open>N div K\<close> or
  that rounded up, and the number of replicas of each role is \<open>N * R div K\<close> or that
  rounded up.
\<close>

theorem AssignRoles_balanced:
  assumes "assignRolesPass N R version oldServers oldMasters oldReplicas rg staleRolesErr setErr
      states = Assigned newRoles newMasters newReplicas addresses"
  shows "(\<forall>serverState\<in>set states. newRoles (SAddress serverState) \<noteq> None)
     \<and> (\<forall>a r. newRoles a = Some r \<longrightarrow>
          card (Masters r) \<in> {N div length states, (N + length states - 1) div length states}
          \<and> card (Replicas r) \<in>
              {(N * R) div length states, (N * R + length states - 1) div length states})"
proof -
  let ?K = "length states"
  let ?D = "SAddress ` set states"
  let ?NR = "(N * R) mod 2 ^ 64"
  from assignRolesPass_Assigned [OF assms] obtain roles1 remM remR where
    ne: "states \<noteq> []"
    and mi: "masterInv ?D (N div ?K) (N mod ?K) {0..<N} roles1 newMasters remM"
    and ri: "replicaInv ?D (?NR div ?K) (?NR mod ?K) roles1 newRoles remR (R * N)"
    by blast
  from ne have K: "0 < ?K" by simp
  have cardD: "card ?D \<le> ?K"
    by (metis card_image_le card_length le_trans List.finite_set)
  from mi have cm: "countsOK ?D (N div ?K) (N mod ?K) (masterCount roles1) remM N"
    by (simp add: masterInv_def)
  from ri have cr: "countsOK ?D (?NR div ?K) (?NR mod ?K) (replicaCount newRoles) remR (R * N)"
    and dom: "dom newRoles = ?D"
    and same: "\<And>a. map_option Masters (newRoles a) = map_option Masters (roles1 a)"
    by (simp_all add: replicaInv_def)
  have "?K * (N div ?K) + N mod ?K \<le> N" by simp
  note bm = countsOK_balanced [OF cm cardD this]
  have m: "\<forall>a\<in>?D. N div ?K \<le> masterCount roles1 a \<and> masterCount roles1 a \<le> N div ?K + 1"
    "N mod ?K = 0 \<longrightarrow> (\<forall>a\<in>?D. masterCount roles1 a = N div ?K)"
    using bm [THEN conjunct2, THEN conjunct1] bm [THEN conjunct2, THEN conjunct2] .
  have "?K * (?NR div ?K) + ?NR mod ?K \<le> R * N"
    by (simp add: mult.commute)
  note br = countsOK_balanced [OF cr cardD this]
  have r: "R * N = ?K * (?NR div ?K) + ?NR mod ?K"
    "\<forall>a\<in>?D. ?NR div ?K \<le> replicaCount newRoles a \<and> replicaCount newRoles a \<le> ?NR div ?K + 1"
    "?NR mod ?K = 0 \<longrightarrow> (\<forall>a\<in>?D. replicaCount newRoles a = ?NR div ?K)"
    using br [THEN conjunct1] br [THEN conjunct2, THEN conjunct1]
      br [THEN conjunct2, THEN conjunct2] .
  from r(1) have NR: "?NR = N * R" by (simp add: mult.commute)
  have every: "\<forall>serverState\<in>set states. newRoles (SAddress serverState) \<noteq> None"
    using dom by (metis domIff imageI)
  have "card (Masters ro) \<in> {N div ?K, (N + ?K - 1) div ?K}
      \<and> card (Replicas ro) \<in> {(N * R) div ?K, (N * R + ?K - 1) div ?K}"
    if a: "newRoles a = Some ro" for a ro
  proof -
    from a dom have aD: "a \<in> ?D" by blast
    from same [of a] a obtain r1 where "roles1 a = Some r1" "Masters r1 = Masters ro"
      by (cases "roles1 a") auto
    then have mc: "masterCount roles1 a = card (Masters ro)"
      by (simp add: masterCount_def)
    from a have rc: "replicaCount newRoles a = card (Replicas ro)"
      by (simp add: replicaCount_def)
    from m aD mc have "card (Masters ro) = N div ?K + (if N mod ?K = 0 then 0 else 1)
        \<or> card (Masters ro) = N div ?K"
      by (auto split: if_splits)
    then have "card (Masters ro) \<in> {N div ?K, (N + ?K - 1) div ?K}"
      using ceil_div [OF K, of N] by auto
    moreover from r(2,3) aD rc NR
    have "card (Replicas ro) = (N * R) div ?K + (if (N * R) mod ?K = 0 then 0 else 1)
        \<or> card (Replicas ro) = (N * R) div ?K"
      by (auto split: if_splits)
    then have "card (Replicas ro) \<in> {(N * R) div ?K, (N * R + ?K - 1) div ?K}"
      using ceil_div [OF K, of "N * R"] by auto
    ultimately show ?thesis by simp
  qed
  with every show ?thesis by blast
qed

theorem AssignRoles_balanced_witness:
  "isAssigned fourShardPass
   \<and> (case fourShardPass of
        Assigned newRoles _ _ _ \<Rightarrow>
          map (\<lambda>a. map_option (\<lambda>r. (card (Masters r), card (Replicas r))) (newRoles a))
            threeServers = [Some (2, 1), Some (1, 2), Some (1, 1)]
      | _ \<Rightarrow> False)
   \<and> (4::nat) div 3 = 1 \<and> ((4::nat) + 3 - 1) div 3 = 2"
proof -
  have a: "isAssigned fourShardPass"
    by (simp add: fourShardPass_def pass_eval)
  have v: "case fourShardPass of
        Assigned newRoles _ _ _ \<Rightarrow>
          map (\<lambda>a. map_option (\<lambda>r. (card (Masters r), card (Replicas r))) (newRoles a))
            threeServers = [Some (2, 1), Some (1, 2), Some (1, 1)]
      | _ \<Rightarrow> False"
    by (simp add: fourShardPass_def pass_eval)
  from a obtain newRoles newMasters newReplicas addresses where
    "fourShardPass = Assigned newRoles newMasters newReplicas addresses"
    by (rule isAssignedE)
  from AssignRoles_balanced [OF this [unfolded fourShardPass_def]] a v show ?thesis
    by simp
qed

text \<open>
  C3. On every pass of AssignRoles that assigns, whatever \<open>swapReplica\<close> did on the way:
  no role holds a shard both as master and as replica, no two servers are master of the
  same shard, and in the addresses derived from the roles the master address of a shard is
  the one server whose role has the shard among its masters.
\<close>

theorem AssignRoles_role_safety:
  assumes "assignRolesPass N R version oldServers oldMasters oldReplicas rg staleRolesErr setErr
      states = Assigned newRoles newMasters newReplicas addresses"
  shows "(\<forall>a r. newRoles a = Some r \<longrightarrow> Masters r \<inter> Replicas r = {})
     \<and> (\<forall>a b ra rb s. newRoles a = Some ra \<and> newRoles b = Some rb
            \<and> s \<in> Masters ra \<and> s \<in> Masters rb \<longrightarrow> a = b)
     \<and> (\<forall>a r s. a \<in> set (rangeNewRoles rg) \<and> newRoles a = Some r \<and> s \<in> Masters r \<longrightarrow>
            (\<exists>shardAddresses. AAddresses addresses s = Some shardAddresses
               \<and> AMaster shardAddresses = a))"
proof -
  let ?K = "length states"
  let ?D = "SAddress ` set states"
  let ?NR = "(N * R) mod 2 ^ 64"
  from assignRolesPass_Assigned [OF assms] obtain roles1 remM remR where
    mi: "masterInv ?D (N div ?K) (N mod ?K) {0..<N} roles1 newMasters remM"
    and ri: "replicaInv ?D (?NR div ?K) (?NR mod ?K) roles1 newRoles remR (R * N)"
    and fill: "fillAddresses newRoles (rangeNewRoles rg)
          (\<lambda>shard. if shard < N then Some \<lparr>AMaster = [], AReplicas = {}\<rparr> else None) =
         Inr (AAddresses addresses)"
    by blast
  from ri have ok: "rolesOK newRoles"
    and same: "\<And>a. map_option Masters (newRoles a) = map_option Masters (roles1 a)"
    by (simp_all add: replicaInv_def)
  from mi have uniq1: "\<And>a r s. roles1 a = Some r \<Longrightarrow> s \<in> Masters r \<Longrightarrow> newMasters s = Some a"
    unfolding masterInv_def by blast
  have uniq: "newMasters s = Some a" if "newRoles a = Some r" "s \<in> Masters r" for a r s
  proof -
    from same [of a] that(1) obtain r1 where "roles1 a = Some r1" "Masters r1 = Masters r"
      by (cases "roles1 a") auto
    with uniq1 [of a r1 s] that(2) show ?thesis by simp
  qed
  have one: "a = b" if "newRoles a = Some ra" "newRoles b = Some rb" "s \<in> Masters ra" "s \<in> Masters rb"
    for a b ra rb s
    using uniq [OF that(1,3)] uniq [OF that(2,4)] by simp
  have disjoint: "Masters r \<inter> Replicas r = {}" if "newRoles a = Some r" for a r
    using ok that unfolding rolesOK_def by blast
  have addr: "\<exists>shardAddresses. AAddresses addresses s = Some shardAddresses \<and> AMaster shardAddresses = a"
    if "a \<in> set (rangeNewRoles rg)" "newRoles a = Some r" "s \<in> Masters r" for a r s
  proof -
    have "\<forall>b rb. newRoles b = Some rb \<and> s \<in> Masters rb \<longrightarrow> b = a"
      using one [OF _ that(2) _ that(3)] by blast
    from fillAddresses_master [OF fill that this] show ?thesis .
  qed
  from disjoint one addr show ?thesis by blast
qed

text \<open>
  The first pass of three servers over three shards is an instance: when shard 2 gets its
  replica, the only server with room, \<open>c\<close>, is its master, so \<open>swapReplica\<close> moves
  the replica of shard 1 from \<open>a\<close> to \<open>c\<close> and gives \<open>a\<close> the replica of shard 2.
\<close>

theorem AssignRoles_role_safety_witness:
  "isAssigned firstPass
   \<and> (case firstPass of
        Assigned newRoles _ _ addresses \<Rightarrow>
          map (\<lambda>a. map_option (\<lambda>r. (Masters r, Replicas r)) (newRoles a)) threeServers =
            [Some ({0}, {2}), Some ({1}, {0}), Some ({2}, {1})]
          \<and> map (\<lambda>s. map_option AMaster (AAddresses addresses s)) [0, 1, 2] =
            [Some ''a'', Some ''b'', Some ''c'']
      | _ \<Rightarrow> False)"
proof -
  have a: "isAssigned firstPass"
    by (simp add: firstPass_def pass_eval)
  have v: "case firstPass of
        Assigned newRoles _ _ addresses \<Rightarrow>
          map (\<lambda>a. map_option (\<lambda>r. (Masters r, Replicas r)) (newRoles a)) threeServers =
            [Some ({0}, {2}), Some ({1}, {0}), Some ({2}, {1})]
          \<and> map (\<lambda>s. map_option AMaster (AAddresses addresses s)) [0, 1, 2] =
            [Some ''a'', Some ''b'', Some ''c'']
      | _ \<Rightarrow> False"
    by (simp add: firstPass_def pass_eval)
  from a obtain newRoles newMasters newReplicas addresses where
    "firstPass = Assigned newRoles newMasters newReplicas addresses"
    by (rule isAssignedE)
  from AssignRoles_role_safety [OF this [unfolded firstPass_def]] a v show ?thesis
    by simp
qed

end
